theory Spec2Isabelle
  imports Complex_Main "HOL-Library.Word" "HOL-Library.Sublist"
begin

section \<open>JavaScript containers used by the repository\<close>

text \<open>
  A JavaScript \<open>Set\<close> holds no value twice and iterates in insertion order. It is modelled
  as a list without duplicates: \<open>add\<close> of a value already held changes nothing, \<open>add\<close> of
  a new value puts it last, \<open>size\<close> is the length, \<open>delete\<close> removes the value.
  \<open>SerializedSet\<close> (src/unnamed/part\_001) delegates to such a set of the serialised
  values; for the string members the repository stores, \<open>JSON.stringify\<close> is injective, so
  the members themselves are kept.
\<close>

definition set_add :: "'a \<Rightarrow> 'a list \<Rightarrow> 'a list" where
  "set_add x xs = (if x \<in> set xs then xs else xs @ [x])"

definition set_delete :: "'a \<Rightarrow> 'a list \<Rightarrow> 'a list" where
  "set_delete x xs = filter (\<lambda>y. y \<noteq> x) xs"

text \<open>
  \<open>SerializedMap\<close> (src/unnamed/part\_001) delegates to a \<open>Map\<close> keyed by the serialised
  key. The serialiser (\<open>JSON.stringify\<close> by default) is the parameter \<open>serializeKey\<close>.
\<close>

type_synonym 'v SerializedMap = "string \<rightharpoonup> 'v"

definition SerializedMap_has :: "('k \<Rightarrow> string) \<Rightarrow> 'v SerializedMap \<Rightarrow> 'k \<Rightarrow> bool" where
  "SerializedMap_has serializeKey delegate key = (delegate (serializeKey key) \<noteq> None)"

definition SerializedMap_get :: "('k \<Rightarrow> string) \<Rightarrow> 'v SerializedMap \<Rightarrow> 'k \<Rightarrow> 'v option" where
  "SerializedMap_get serializeKey delegate key = delegate (serializeKey key)"

definition SerializedMap_set ::
  "('k \<Rightarrow> string) \<Rightarrow> 'v SerializedMap \<Rightarrow> 'k \<Rightarrow> 'v \<Rightarrow> 'v SerializedMap" where
  "SerializedMap_set serializeKey delegate key v = delegate(serializeKey key \<mapsto> v)"


section \<open>GeneralMessageDistributor (src/src/broadcast/GeneralMessageDistributor.ts)\<close>

text \<open>
  The distributor holds \<open>receivers\<close>, a \<open>Set\<close> of callbacks. A callback is an opaque
  value of type \<open>'r\<close>, compared by identity. What a callback does when awaited is given by
  \<open>resolves r message\<close>: \<open>True\<close> when its promise resolves, \<open>False\<close> when it rejects.
  \<open>deliver\<close> returns the events it causes, in order, and whether it resolved itself.
\<close>

record 'r GeneralMessageDistributor =
  receivers :: "'r list"

definition newGeneralMessageDistributor :: "'r GeneralMessageDistributor" where
  "newGeneralMessageDistributor = \<lparr>receivers = []\<rparr>"

definition addReceiver ::
  "'r \<Rightarrow> 'r GeneralMessageDistributor \<Rightarrow> 'r GeneralMessageDistributor" where
  "addReceiver receiveMessage d = d\<lparr>receivers := set_add receiveMessage (receivers d)\<rparr>"

datatype ('r, 'm) callback_event = Invoked 'r 'm | Returned 'r | Rejected 'r

fun deliver_loop ::
  "('r \<Rightarrow> 'm \<Rightarrow> bool) \<Rightarrow> 'r list \<Rightarrow> 'm \<Rightarrow> ('r, 'm) callback_event list \<times> bool" where
  "deliver_loop resolves [] message = ([], True)"
| "deliver_loop resolves (r # rs) message =
     (if resolves r message
      then (case deliver_loop resolves rs message of
              (events, ok) \<Rightarrow> (Invoked r message # Returned r # events, ok))
      else ([Invoked r message, Rejected r], False))"

definition deliver ::
  "('r \<Rightarrow> 'm \<Rightarrow> bool) \<Rightarrow> 'r GeneralMessageDistributor \<Rightarrow> 'm
     \<Rightarrow> ('r, 'm) callback_event list \<times> bool" where
  "deliver resolves d message = deliver_loop resolves (receivers d) message"

text \<open>Registering a sequence of callbacks, one \<open>addReceiver\<close> call each, from a new distributor.\<close>

definition addReceivers :: "'r list \<Rightarrow> 'r GeneralMessageDistributor" where
  "addReceivers added = foldl (\<lambda>d r. addReceiver r d) newGeneralMessageDistributor added"

text \<open>A callback that never rejects, for concrete runs.\<close>

definition always_resolves :: "nat \<Rightarrow> string \<Rightarrow> bool" where
  "always_resolves r message = True"

text \<open>Callbacks of which the one numbered 1 rejects.\<close>

definition first_rejects :: "nat \<Rightarrow> string \<Rightarrow> bool" where
  "first_rejects r message = (r \<noteq> 1)"


section \<open>CachedMessageHandler (src/src/CachedMessageHandler.ts)\<close>

text \<open>
  The handler's state is the receiver map \<open>messageReceiverByTarget\<close> (a \<open>SerializedMap\<close>);
  \<open>handled\<close> logs every call \<open>handleMessage(message)\<close> of a registered receiver. An
  operation returns the state it leaves and the error it throws, if any.
  \<open>createFromReference\<close> belongs to the package \<open>nest-crdt\<close>: it is a parameter that maps
  the target and the handler to the handler it leaves and the error it throws, if any.
  \<open>runs f message\<close> is the error the receiver \<open>f\<close> throws on \<open>message\<close>, if any.
\<close>

datatype 'x handler_error = ReceiverExists | ReceiverMissing | Thrown 'x

record ('f, 'm) CachedMessageHandler =
  messageReceiverByTarget :: "'f SerializedMap"
  handled :: "('f \<times> 'm) list"

definition newCachedMessageHandler :: "('f, 'm) CachedMessageHandler" where
  "newCachedMessageHandler = \<lparr>messageReceiverByTarget = Map.empty, handled = []\<rparr>"

definition addReceiverFor ::
  "('t \<Rightarrow> string) \<Rightarrow> ('f, 'm) CachedMessageHandler \<Rightarrow> 't \<Rightarrow> 'f
     \<Rightarrow> ('f, 'm) CachedMessageHandler \<times> 'x handler_error option" where
  "addReceiverFor serializeKey h target handleMessage =
     (if SerializedMap_has serializeKey (messageReceiverByTarget h) target
      then (h, Some ReceiverExists)
      else (h\<lparr>messageReceiverByTarget :=
                SerializedMap_set serializeKey (messageReceiverByTarget h) target handleMessage\<rparr>,
            None))"

definition deliverMessage ::
  "('t \<Rightarrow> string)
     \<Rightarrow> ('t \<Rightarrow> ('f, 'm) CachedMessageHandler \<Rightarrow> ('f, 'm) CachedMessageHandler \<times> 'x option)
     \<Rightarrow> ('f \<Rightarrow> 'm \<Rightarrow> 'x option)
     \<Rightarrow> ('f, 'm) CachedMessageHandler \<Rightarrow> 't \<Rightarrow> 'm
     \<Rightarrow> ('f, 'm) CachedMessageHandler \<times> 'x handler_error option" where
  "deliverMessage serializeKey createFromReference runs h target message =
     (case (if \<not> SerializedMap_has serializeKey (messageReceiverByTarget h) target
            then createFromReference target h else (h, None)) of
        (h1, Some e) \<Rightarrow> (h1, Some (Thrown e))
      | (h1, None) \<Rightarrow>
          (case SerializedMap_get serializeKey (messageReceiverByTarget h1) target of
             None \<Rightarrow> (h1, Some ReceiverMissing)
           | Some handleMessage \<Rightarrow>
               (h1\<lparr>handled := handled h1 @ [(handleMessage, message)]\<rparr>,
                map_option Thrown (runs handleMessage message))))"

text \<open>A sequence of \<open>addReceiverFor\<close> calls; a call that throws leaves the state as it is.\<close>

definition addReceiversFor ::
  "('t \<Rightarrow> string) \<Rightarrow> ('f, 'm) CachedMessageHandler \<Rightarrow> ('t \<times> 'f) list
     \<Rightarrow> ('f, 'm) CachedMessageHandler" where
  "addReceiversFor serializeKey h calls =
     foldl (\<lambda>h c. fst (addReceiverFor serializeKey h (fst c) (snd c)
                         :: ('f, 'm) CachedMessageHandler \<times> unit handler_error option)) h calls"


text \<open>Concrete factories and a concrete receiver, for runs on explicit inputs.\<close>

definition registering_factory ::
  "string \<Rightarrow> (nat, string) CachedMessageHandler
     \<Rightarrow> (nat, string) CachedMessageHandler \<times> unit option" where
  "registering_factory target h =
     (fst (addReceiverFor (\<lambda>t. t) h target 5
             :: (nat, string) CachedMessageHandler \<times> unit handler_error option), None)"

definition idle_factory ::
  "string \<Rightarrow> (nat, string) CachedMessageHandler
     \<Rightarrow> (nat, string) CachedMessageHandler \<times> unit option" where
  "idle_factory target h = (h, None)"

definition failing_factory ::
  "string \<Rightarrow> (nat, string) CachedMessageHandler
     \<Rightarrow> (nat, string) CachedMessageHandler \<times> unit option" where
  "failing_factory target h = (h, Some ())"

definition quiet_receiver :: "nat \<Rightarrow> string \<Rightarrow> unit option" where
  "quiet_receiver f message = None"

definition one_receiver :: "(nat, string) CachedMessageHandler" where
  "one_receiver = addReceiversFor (\<lambda>t. t) newCachedMessageHandler [(''T'', 5)]"


section \<open>The readiness barrier \<open>waitForEveryone\<close> (src/src/broadcast/GeneralMessageDistributor.ts, second part)\<close>

text \<open>
  The barrier's state: the closure variable \<open>missingNodes\<close>, the calls
  \<open>network.sendMessage(target, setupTopic, null)\<close> made so far (as target and topic; the
  body is always \<open>null\<close>), and how often \<open>resolve()\<close> was called. The promise returned by
  \<open>waitForEveryone\<close> is resolved when \<open>resolve()\<close> was called at least once. A receive on
  the setup topic carries the sender and whether the awaited reply resolves.
\<close>

record barrier =
  missingNodes :: "string list"
  sentMessages :: "(string \<times> string) list"
  resolveCalls :: nat

definition waitForEveryone :: "string \<Rightarrow> string list \<Rightarrow> barrier" where
  "waitForEveryone setupTopic otherIDs =
     \<lparr>missingNodes = otherIDs,
      sentMessages = map (\<lambda>otherId. (otherId, setupTopic)) otherIDs,
      resolveCalls = 0\<rparr>"

definition setupReceiver :: "string \<Rightarrow> barrier \<Rightarrow> string \<times> bool \<Rightarrow> barrier" where
  "setupReceiver setupTopic b ev =
     (case ev of (greeterId, replyResolves) \<Rightarrow>
        if greeterId \<in> set (missingNodes b) then
          (let b1 = b\<lparr>missingNodes := set_delete greeterId (missingNodes b)\<rparr>;
               b2 = b1\<lparr>sentMessages := sentMessages b1 @ [(greeterId, setupTopic)]\<rparr>
           in if replyResolves then
                (if length (missingNodes b2) = 0
                 then b2\<lparr>resolveCalls := Suc (resolveCalls b2)\<rparr> else b2)
              else b2)
        else b)"

definition barrier_run :: "string \<Rightarrow> string list \<Rightarrow> (string \<times> bool) list \<Rightarrow> barrier" where
  "barrier_run setupTopic otherIDs evs =
     foldl (setupReceiver setupTopic) (waitForEveryone setupTopic otherIDs) evs"

definition isResolved :: "barrier \<Rightarrow> bool" where
  "isResolved b = (0 < resolveCalls b)"


section \<open>ReliableMessageDistributor (src/src/broadcast/ReliableMessageDistributor.ts)\<close>

text \<open>
  A message is a JavaScript value of type \<open>any\<close>. The handlers look at three things only:
  whether the value is an array, how long it is, and whether an element is a string.
  Everything else (numbers, booleans, \<open>null\<close>, objects) is \<open>Other\<close>.
\<close>

datatype 'a any = Undefined | Str string | Arr "'a any list" | Other 'a

fun isString :: "'a any \<Rightarrow> bool" where
  "isString (Str s) = True"
| "isString v = False"

text \<open>\<open>message[i]\<close>, which the repository applies to arrays only.\<close>

fun element :: "'a any \<Rightarrow> nat \<Rightarrow> 'a any" where
  "element (Arr xs) i = (if i < length xs then xs ! i else Undefined)"
| "element v i = Undefined"

definition isMessageWithId :: "'a any \<Rightarrow> bool" where
  "isMessageWithId v =
     (case v of Arr xs \<Rightarrow> length xs = 2 \<and> isString (element v 0) | _ \<Rightarrow> False)"

definition isAnnotatedMessage :: "'a any \<Rightarrow> bool" where
  "isAnnotatedMessage v =
     (case v of Arr xs \<Rightarrow> length xs = 3 \<and> isString (element v 0) \<and> isString (element v 2)
      | _ \<Rightarrow> False)"

definition withId :: "string \<Rightarrow> 'a any \<Rightarrow> 'a any" where
  "withId uuid message = Arr [Str uuid, message]"

definition getIdOfMessage :: "'a any \<Rightarrow> 'a any" where
  "getIdOfMessage message = element message 0"

definition getContentOfMessage :: "'a any \<Rightarrow> 'a any" where
  "getContentOfMessage message = element message 1"

text \<open>\<open>[...messageWithId, senderId]\<close>, applied after \<open>isMessageWithId\<close> has held.\<close>

definition annotate :: "'a any \<Rightarrow> string \<Rightarrow> 'a any" where
  "annotate messageWithId senderId =
     (case messageWithId of Arr xs \<Rightarrow> Arr (xs @ [Str senderId]) | _ \<Rightarrow> Undefined)"

text \<open>
  The state kept per message. A sender set is \<open>None\<close> once it has been set to \<open>null\<close>.
\<close>

record MessageState =
  wasEchoSent :: bool
  wasReadySent :: bool
  wasAccepted :: bool
  echoSenders :: "string list option"
  readySenders :: "string list option"

definition newMessageState :: MessageState where
  "newMessageState =
     \<lparr>wasEchoSent = False, wasReadySent = False, wasAccepted = False,
      echoSenders = Some [], readySenders = Some []\<rparr>"

text \<open>
  \<open>hashMessage\<close> returns \<open>JSON.stringify([id, hash])\<close>, kept here as the pair. The
  digest \<open>createHash('sha256').update(JSON.stringify(m)).digest('base64')\<close> comes from
  Node's \<open>crypto\<close>: it is the parameter \<open>sha256\<close>, about which nothing is assumed.
\<close>

type_synonym 'a HashedMessage = "'a any \<times> string"

definition hashMessage :: "('a any \<Rightarrow> string) \<Rightarrow> 'a any \<Rightarrow> 'a HashedMessage" where
  "hashMessage sha256 annotatedMessage = (getIdOfMessage annotatedMessage, sha256 annotatedMessage)"

text \<open>
  What a node does to the outside: \<open>SendMessage nodeId topic message\<close> is a call
  \<open>this.sendMessage(nodeId, topic, message)\<close>, which hands the message to the network;
  \<open>Deliver annotatedMessage content\<close> is the call \<open>this.deliver(content)\<close> made by
  \<open>acceptMessage(annotatedMessage)\<close>. The calls are kept in order in \<open>effects\<close>. The
  network brings a sent message back as a later handler invocation; a handler runs through
  without another handler running in between.
\<close>

datatype 'a effect = SendMessage string string "'a any" | Deliver "'a any" "'a any"

record 'a ReliableMessageDistributor =
  nodeIDs :: "string list"
  messageStates :: "'a HashedMessage \<rightharpoonup> MessageState"
  effects :: "'a effect list"

definition newReliableMessageDistributor :: "string list \<Rightarrow> 'a ReliableMessageDistributor" where
  "newReliableMessageDistributor ids = \<lparr>nodeIDs = ids, messageStates = Map.empty, effects = []\<rparr>"

definition nodeCount :: "'a ReliableMessageDistributor \<Rightarrow> int" where
  "nodeCount d = int (length (nodeIDs d))"

definition faultyNodeCount :: "'a ReliableMessageDistributor \<Rightarrow> int" where
  "faultyNodeCount d = \<lfloor>(of_int (nodeCount d - 1) :: rat) / 3\<rfloor>"

definition getMessageState ::
  "('a any \<Rightarrow> string) \<Rightarrow> 'a ReliableMessageDistributor \<Rightarrow> 'a any
     \<Rightarrow> 'a ReliableMessageDistributor \<times> MessageState" where
  "getMessageState sha256 d annotatedMessage =
     (let hashedMessage = hashMessage sha256 annotatedMessage
      in case messageStates d hashedMessage of
           None \<Rightarrow> (d\<lparr>messageStates := (messageStates d)(hashedMessage \<mapsto> newMessageState)\<rparr>,
                     newMessageState)
         | Some messageState \<Rightarrow> (d, messageState))"

text \<open>
  \<open>getMessageState\<close> returns a reference to the object in the map; an assignment to one
  of its fields is a write to the map at the message's key.
\<close>

definition putMessageState ::
  "('a any \<Rightarrow> string) \<Rightarrow> 'a ReliableMessageDistributor \<Rightarrow> 'a any \<Rightarrow> MessageState
     \<Rightarrow> 'a ReliableMessageDistributor" where
  "putMessageState sha256 d annotatedMessage messageState =
     d\<lparr>messageStates := (messageStates d)(hashMessage sha256 annotatedMessage \<mapsto> messageState)\<rparr>"

definition sendToEveryone ::
  "'a ReliableMessageDistributor \<Rightarrow> string \<Rightarrow> 'a any \<Rightarrow> 'a ReliableMessageDistributor" where
  "sendToEveryone d topic message =
     d\<lparr>effects := effects d @ map (\<lambda>nodeId. SendMessage nodeId topic message) (nodeIDs d)\<rparr>"

definition broadcast ::
  "'a ReliableMessageDistributor \<Rightarrow> string \<Rightarrow> 'a any \<Rightarrow> 'a ReliableMessageDistributor" where
  "broadcast d uuid message = sendToEveryone d ''initial'' (withId uuid message)"

definition echoMessage ::
  "('a any \<Rightarrow> string) \<Rightarrow> 'a ReliableMessageDistributor \<Rightarrow> 'a any
     \<Rightarrow> 'a ReliableMessageDistributor" where
  "echoMessage sha256 d annotatedMessage =
     (case getMessageState sha256 d annotatedMessage of (d1, messageState) \<Rightarrow>
        if \<not> wasEchoSent messageState
        then sendToEveryone
               (putMessageState sha256 d1 annotatedMessage (messageState\<lparr>wasEchoSent := True\<rparr>))
               ''echo'' annotatedMessage
        else d1)"

definition readyMessage ::
  "('a any \<Rightarrow> string) \<Rightarrow> 'a ReliableMessageDistributor \<Rightarrow> 'a any
     \<Rightarrow> 'a ReliableMessageDistributor" where
  "readyMessage sha256 d annotatedMessage =
     (case getMessageState sha256 d annotatedMessage of (d1, messageState) \<Rightarrow>
        if \<not> wasReadySent messageState
        then sendToEveryone
               (putMessageState sha256 d1 annotatedMessage
                  (messageState\<lparr>wasReadySent := True, echoSenders := None\<rparr>))
               ''ready'' annotatedMessage
        else d1)"

definition acceptMessage ::
  "('a any \<Rightarrow> string) \<Rightarrow> 'a ReliableMessageDistributor \<Rightarrow> 'a any
     \<Rightarrow> 'a ReliableMessageDistributor" where
  "acceptMessage sha256 d annotatedMessage =
     (case getMessageState sha256 d annotatedMessage of (d1, messageState) \<Rightarrow>
        if \<not> wasAccepted messageState
        then (let d2 = putMessageState sha256 d1 annotatedMessage
                         (messageState\<lparr>wasAccepted := True, readySenders := None\<rparr>)
              in d2\<lparr>effects := effects d2
                        @ [Deliver annotatedMessage (getContentOfMessage annotatedMessage)]\<rparr>)
        else d1)"

definition isMessageReady ::
  "('a any \<Rightarrow> string) \<Rightarrow> 'a ReliableMessageDistributor \<Rightarrow> 'a any
     \<Rightarrow> 'a ReliableMessageDistributor \<times> bool" where
  "isMessageReady sha256 d annotatedMessage =
     (case getMessageState sha256 d annotatedMessage of (d1, messageState) \<Rightarrow>
        (d1,
         (case readySenders messageState of
            None \<Rightarrow> False
          | Some senders \<Rightarrow> int (length senders) \<ge> faultyNodeCount d1 + 1)
         \<or> (case echoSenders messageState of
               None \<Rightarrow> False
             | Some senders \<Rightarrow>
                 (of_nat (length senders) :: rat)
                   > of_int (nodeCount d1 + faultyNodeCount d1) / 2)))"

definition isMessageAccepted ::
  "('a any \<Rightarrow> string) \<Rightarrow> 'a ReliableMessageDistributor \<Rightarrow> 'a any
     \<Rightarrow> 'a ReliableMessageDistributor \<times> bool" where
  "isMessageAccepted sha256 d annotatedMessage =
     (case getMessageState sha256 d annotatedMessage of (d1, messageState) \<Rightarrow>
        (d1,
         (case readySenders messageState of
            None \<Rightarrow> False
          | Some senders \<Rightarrow> int (length senders) \<ge> 2 * faultyNodeCount d1 + 1)))"

definition registerEchoMessage ::
  "('a any \<Rightarrow> string) \<Rightarrow> 'a ReliableMessageDistributor \<Rightarrow> string \<Rightarrow> 'a any
     \<Rightarrow> 'a ReliableMessageDistributor" where
  "registerEchoMessage sha256 d senderId annotatedMessage =
     (case getMessageState sha256 d annotatedMessage of (d1, messageState) \<Rightarrow>
        (case echoSenders messageState of
           None \<Rightarrow> d1
         | Some senders \<Rightarrow>
             putMessageState sha256 d1 annotatedMessage
               (messageState\<lparr>echoSenders := Some (set_add senderId senders)\<rparr>)))"

definition registerReadyMessage ::
  "('a any \<Rightarrow> string) \<Rightarrow> 'a ReliableMessageDistributor \<Rightarrow> string \<Rightarrow> 'a any
     \<Rightarrow> 'a ReliableMessageDistributor" where
  "registerReadyMessage sha256 d senderId annotatedMessage =
     (case getMessageState sha256 d annotatedMessage of (d1, messageState) \<Rightarrow>
        (case readySenders messageState of
           None \<Rightarrow> d1
         | Some senders \<Rightarrow>
             putMessageState sha256 d1 annotatedMessage
               (messageState\<lparr>readySenders := Some (set_add senderId senders)\<rparr>)))"

text \<open>The receivers registered for the topics \<open>initial\<close>, \<open>echo\<close> and \<open>ready\<close>.\<close>

definition on_initial ::
  "('a any \<Rightarrow> string) \<Rightarrow> 'a ReliableMessageDistributor \<Rightarrow> string \<Rightarrow> 'a any
     \<Rightarrow> 'a ReliableMessageDistributor" where
  "on_initial sha256 d senderId messageWithId =
     (if isMessageWithId messageWithId
      then echoMessage sha256 d (annotate messageWithId senderId)
      else d)"

definition on_echo ::
  "('a any \<Rightarrow> string) \<Rightarrow> 'a ReliableMessageDistributor \<Rightarrow> string \<Rightarrow> 'a any
     \<Rightarrow> 'a ReliableMessageDistributor" where
  "on_echo sha256 d senderId annotatedMessage =
     (if isAnnotatedMessage annotatedMessage then
        (let d1 = registerEchoMessage sha256 d senderId annotatedMessage
         in case isMessageReady sha256 d1 annotatedMessage of (d2, ready) \<Rightarrow>
              if ready
              then readyMessage sha256 (echoMessage sha256 d2 annotatedMessage) annotatedMessage
              else d2)
      else d)"

definition on_ready ::
  "('a any \<Rightarrow> string) \<Rightarrow> 'a ReliableMessageDistributor \<Rightarrow> string \<Rightarrow> 'a any
     \<Rightarrow> 'a ReliableMessageDistributor" where
  "on_ready sha256 d senderId annotatedMessage =
     (if isAnnotatedMessage annotatedMessage then
        (let d1 = registerReadyMessage sha256 d senderId annotatedMessage
         in case isMessageReady sha256 d1 annotatedMessage of (d2, ready) \<Rightarrow>
              (let d3 = (if ready
                         then readyMessage sha256 (echoMessage sha256 d2 annotatedMessage)
                                annotatedMessage
                         else d2)
               in case isMessageAccepted sha256 d3 annotatedMessage of (d4, accepted) \<Rightarrow>
                    if accepted then acceptMessage sha256 d4 annotatedMessage else d4))
      else d)"

text \<open>
  What happens at a node: the network invokes one of the three receivers with the sender's
  id and the message, or the application calls \<open>broadcast\<close> (the fresh UUID is given).
\<close>

datatype 'a invocation =
  Initial string "'a any" | Echo string "'a any" | Ready string "'a any"
| Broadcast string "'a any"

fun invoke ::
  "('a any \<Rightarrow> string) \<Rightarrow> 'a ReliableMessageDistributor \<Rightarrow> 'a invocation
     \<Rightarrow> 'a ReliableMessageDistributor" where
  "invoke sha256 d (Initial senderId m) = on_initial sha256 d senderId m"
| "invoke sha256 d (Echo senderId m) = on_echo sha256 d senderId m"
| "invoke sha256 d (Ready senderId m) = on_ready sha256 d senderId m"
| "invoke sha256 d (Broadcast uuid m) = broadcast d uuid m"

definition invoke_all ::
  "('a any \<Rightarrow> string) \<Rightarrow> 'a ReliableMessageDistributor \<Rightarrow> 'a invocation list
     \<Rightarrow> 'a ReliableMessageDistributor" where
  "invoke_all sha256 d calls = foldl (invoke sha256) d calls"

text \<open>The effects a step added to those of the state before it.\<close>

definition new_effects ::
  "'a ReliableMessageDistributor \<Rightarrow> 'a ReliableMessageDistributor \<Rightarrow> 'a effect list" where
  "new_effects d d' = drop (length (effects d)) (effects d')"

text \<open>
  Counting, in a list of effects, the messages with a given fingerprint sent on a topic to
  a node, and the deliveries for a given fingerprint.
\<close>

definition sends ::
  "('a any \<Rightarrow> string) \<Rightarrow> string \<Rightarrow> 'a HashedMessage \<Rightarrow> string \<Rightarrow> 'a effect list \<Rightarrow> nat" where
  "sends sha256 topic h nodeId es =
     length (filter (\<lambda>e. case e of
                            SendMessage n t m \<Rightarrow> n = nodeId \<and> t = topic \<and> hashMessage sha256 m = h
                          | Deliver m c \<Rightarrow> False) es)"

definition deliveries :: "('a any \<Rightarrow> string) \<Rightarrow> 'a HashedMessage \<Rightarrow> 'a effect list \<Rightarrow> nat" where
  "deliveries sha256 h es =
     length (filter (\<lambda>e. case e of
                            SendMessage n t m \<Rightarrow> False
                          | Deliver m c \<Rightarrow> hashMessage sha256 m = h) es)"

text \<open>
  The state of a fingerprint: the stored one, or the one \<open>getMessageState\<close> would store
  on first access.
\<close>

definition state_at :: "'a ReliableMessageDistributor \<Rightarrow> 'a HashedMessage \<Rightarrow> MessageState" where
  "state_at d h = (case messageStates d h of None \<Rightarrow> newMessageState | Some messageState \<Rightarrow> messageState)"

text \<open>
  The invariant of a node: for every fingerprint, the released sender sets, and the
  effects caused so far, agree with the three flags.
\<close>

definition consistent :: "('a any \<Rightarrow> string) \<Rightarrow> 'a ReliableMessageDistributor \<Rightarrow> bool" where
  "consistent sha256 d =
     (\<forall>h. (wasReadySent (state_at d h) \<longrightarrow> echoSenders (state_at d h) = None)
        \<and> (wasAccepted (state_at d h) \<longrightarrow> readySenders (state_at d h) = None)
        \<and> deliveries sha256 h (effects d) = (if wasAccepted (state_at d h) then 1 else 0)
        \<and> (\<forall>nodeId.
              sends sha256 ''echo'' h nodeId (effects d)
                = (if wasEchoSent (state_at d h) then count_list (nodeIDs d) nodeId else 0)
            \<and> sends sha256 ''ready'' h nodeId (effects d)
                = (if wasReadySent (state_at d h) then count_list (nodeIDs d) nodeId else 0)))"

text \<open>Concrete inputs for runs: a digest stub, a message, a network of four nodes.\<close>

definition sha_stub :: "unit any \<Rightarrow> string" where
  "sha_stub m = (case m of Arr [uuid, Str content, sender] \<Rightarrow> content | _ \<Rightarrow> ''?'')"

definition hello :: "unit any" where
  "hello = Arr [Str ''u1'', Str ''hello'', Str ''a'']"

definition four_nodes :: "string list" where
  "four_nodes = [''a'', ''b'', ''c'', ''d'']"

definition quorum_run :: "unit invocation list" where
  "quorum_run = [Echo ''a'' hello, Echo ''b'' hello, Echo ''c'' hello,
                 Ready ''a'' hello, Ready ''b'' hello, Ready ''c'' hello]"

definition after_two_echoes :: "unit ReliableMessageDistributor" where
  "after_two_echoes =
     invoke_all sha_stub (newReliableMessageDistributor four_nodes) [Echo ''a'' hello, Echo ''b'' hello]"

definition after_one_ready :: "unit ReliableMessageDistributor" where
  "after_one_ready =
     invoke_all sha_stub (newReliableMessageDistributor four_nodes) [Ready ''a'' hello]"

definition after_two_readies :: "unit ReliableMessageDistributor" where
  "after_two_readies =
     invoke_all sha_stub (newReliableMessageDistributor four_nodes) [Ready ''a'' hello, Ready ''b'' hello]"

definition after_quorum :: "unit ReliableMessageDistributor" where
  "after_quorum = invoke_all sha_stub (newReliableMessageDistributor four_nodes) quorum_run"

definition first_contact :: "unit invocation list" where
  "first_contact = [Echo ''a'' hello, Ready ''a'' hello]"


section \<open>EncryptedTCPNetwork: buffering and handshake (src/src/network/EncryptedTCPNetwork.ts)\<close>

text \<open>
  A \<open>Buffer\<close> is a list of bytes. A connection key is a \<open>Buffer\<close> or a string;
  \<open>sendMessage\<close> tests it for truth, and the one key JavaScript takes for false is the
  empty string.
\<close>

type_synonym byte = "8 word"

datatype key = KeyBuffer "byte list" | KeyString string

fun truthy :: "key \<Rightarrow> bool" where
  "truthy (KeyBuffer b) = True"
| "truthy (KeyString s) = (s \<noteq> [])"

text \<open>
  \<open>encryptAES\<close> hands the key to \<open>createCipheriv('aes-256-cbc', key, iv)\<close>, which throws
  unless the key has 32 bytes: the length of a \<open>Buffer\<close>, the length of the UTF-8
  encoding of a string (one byte for a character below 128, two for the others a
  \<open>string\<close> here can hold).
\<close>

definition byteLength :: "string \<Rightarrow> nat" where
  "byteLength str = sum_list (map (\<lambda>c. if (of_char c :: nat) < 128 then 1 else 2) str)"

fun keyLength :: "key \<Rightarrow> nat" where
  "keyLength (KeyBuffer b) = length b"
| "keyLength (KeyString str) = byteLength str"

datatype send_error = InvalidKeyLength

text \<open>
  Every call of \<open>connect()\<close> creates a socket with a receiver closure of its own. A
  socket is known by its index in \<open>sockets\<close>; the entry keeps what the closure holds:
  the peer's id and public key (from the enclosing \<open>registerNode\<close> call), the nonce, and
  the flag \<open>hasKey\<close>.
\<close>

record 'pk socket_closure =
  peer :: string
  peerKey :: 'pk
  nonce :: string
  hasKey :: bool

text \<open>
  What the network does to the outside, in order: the handshake request
  \<open>send(connection, targetPublicKey, 'rsa', [this.id, nonce])\<close>, a message
  \<open>send(targetNode, connectionKey, 'aes', [topic, message])\<close>, \<open>end()\<close> on a replaced
  socket, \<open>receive(targetId, message)\<close> of the receiver registered for a topic, and
  \<open>console.error(e, content)\<close> in the \<open>catch\<close> around the receiver closure of a socket.
\<close>

datatype ('pk, 'm) wire =
  WriteRSA nat 'pk string string
| WriteAES nat key string 'm
| EndSocket nat
| LocalReceive string string 'm
| ConsoleError send_error

record ('pk, 'm) EncryptedTCPNetwork =
  ownId :: string
  publicKeys :: "string \<rightharpoonup> 'pk"
  sockets :: "'pk socket_closure list"
  connections :: "string \<rightharpoonup> nat"
  connectionKeys :: "string \<rightharpoonup> key"
  bufferedData :: "string \<rightharpoonup> (string \<times> 'm) list"
  receiversByTopic :: "string set"
  written :: "('pk, 'm) wire list"

definition newEncryptedTCPNetwork :: "string \<Rightarrow> ('pk, 'm) EncryptedTCPNetwork" where
  "newEncryptedTCPNetwork i =
     \<lparr>ownId = i, publicKeys = Map.empty, sockets = [], connections = Map.empty,
      connectionKeys = Map.empty, bufferedData = Map.empty, receiversByTopic = {},
      written = []\<rparr>"

text \<open>The entries buffered for a peer: none when the map has no array for it.\<close>

definition queue :: "('pk, 'm) EncryptedTCPNetwork \<Rightarrow> string \<Rightarrow> (string \<times> 'm) list" where
  "queue s i = (case bufferedData s i of None \<Rightarrow> [] | Some elements \<Rightarrow> elements)"

text \<open>
  \<open>send(connection, key, 'aes', [topic, message])\<close>: \<open>encryptAES\<close> throws for a key that
  has not 32 bytes, before anything is written. The message is taken to be serialisable
  (\<open>JSON.stringify\<close> does not throw); the ciphertext is not modelled, the write is logged
  with its socket, key, topic and message.
\<close>

definition send_aes ::
  "('pk, 'm) EncryptedTCPNetwork \<Rightarrow> nat \<Rightarrow> key \<Rightarrow> string \<Rightarrow> 'm
     \<Rightarrow> send_error + ('pk, 'm) EncryptedTCPNetwork" where
  "send_aes s connection k topic message =
     (if keyLength k = 32
      then Inr (s\<lparr>written := written s @ [WriteAES connection k topic message]\<rparr>)
      else Inl InvalidKeyLength)"

text \<open>
  \<open>sendMessage\<close>: \<open>Inl\<close> is the exception it throws (its promise is rejected), the
  object being left as it was.
\<close>

definition sendMessage ::
  "('pk, 'm) EncryptedTCPNetwork \<Rightarrow> string \<Rightarrow> string \<Rightarrow> 'm
     \<Rightarrow> send_error + ('pk, 'm) EncryptedTCPNetwork" where
  "sendMessage s targetId topic message =
     (if targetId \<noteq> ownId s then
        (case connections s targetId of
           Some targetNode \<Rightarrow>
             (case connectionKeys s targetId of
                Some connectionKey \<Rightarrow>
                  if truthy connectionKey
                  then send_aes s targetNode connectionKey topic message
                  else Inr (s\<lparr>bufferedData :=
                           (bufferedData s)(targetId \<mapsto> queue s targetId @ [(topic, message)])\<rparr>)
              | None \<Rightarrow>
                  Inr (s\<lparr>bufferedData :=
                      (bufferedData s)(targetId \<mapsto> queue s targetId @ [(topic, message)])\<rparr>))
         | None \<Rightarrow>
             Inr (s\<lparr>bufferedData :=
                 (bufferedData s)(targetId \<mapsto> queue s targetId @ [(topic, message)])\<rparr>))
      else if topic \<in> receiversByTopic s
           then Inr (s\<lparr>written := written s @ [LocalReceive topic targetId message]\<rparr>)
           else Inr s)"

text \<open>
  \<open>connect()\<close> of the closure made by \<open>registerNode(id, node)\<close>; the fresh
  \<open>randomUUID()\<close> is the argument \<open>freshNonce\<close>. The socket calls and the RSA
  encryption of the request are taken not to throw (the \<open>catch\<close> branch would call
  \<open>connect()\<close> again).
\<close>

definition connect ::
  "('pk, 'm) EncryptedTCPNetwork \<Rightarrow> string \<Rightarrow> 'pk \<Rightarrow> string \<Rightarrow> ('pk, 'm) EncryptedTCPNetwork" where
  "connect s i targetPublicKey freshNonce =
     (let s1 = s\<lparr>connectionKeys := (connectionKeys s)(i := None)\<rparr>;
          s2 = (case connections s1 i of
                  Some old \<Rightarrow> s1\<lparr>written := written s1 @ [EndSocket old]\<rparr>
                | None \<Rightarrow> s1);
          connection = length (sockets s2);
          s3 = s2\<lparr>sockets := sockets s2
                       @ [\<lparr>peer = i, peerKey = targetPublicKey, nonce = freshNonce, hasKey = False\<rparr>],
                   connections := (connections s2)(i \<mapsto> connection)\<rparr>
      in s3\<lparr>written := written s3 @ [WriteRSA connection targetPublicKey (ownId s3) freshNonce]\<rparr>)"

definition registerNode ::
  "('pk, 'm) EncryptedTCPNetwork \<Rightarrow> string \<Rightarrow> 'pk \<Rightarrow> string \<Rightarrow> ('pk, 'm) EncryptedTCPNetwork" where
  "registerNode s i targetPublicKey freshNonce =
     (if i \<noteq> ownId s
      then connect (s\<lparr>publicKeys := (publicKeys s)(i \<mapsto> targetPublicKey)\<rparr>) i targetPublicKey freshNonce
      else s)"

text \<open>
  The loop \<open>for (const {topic, message} of bufferedElements) await this.sendMessage(id,
  topic, message)\<close>. An array iterator reads the array's current length at every step, so
  entries pushed while the loop runs are visited too, and the loop need not end:
  \<open>None\<close> stands for a loop that never ends. An exception of \<open>sendMessage\<close> leaves the
  loop: the result is the object as it is then, with the exception if there was one.
  \<open>sendMessage\<close> to a remote peer awaits nothing itself, so each \<open>await\<close> of the loop
  goes on in a microtask, before any other event of the object is handled: nothing
  happens to the object between two steps of the loop.
\<close>

partial_function (option) drain ::
  "('pk, 'm) EncryptedTCPNetwork \<Rightarrow> string \<Rightarrow> nat
     \<Rightarrow> (('pk, 'm) EncryptedTCPNetwork \<times> send_error option) option" where
  "drain s i position =
     (if position < length (queue s i)
      then (case sendMessage s i (fst (queue s i ! position)) (snd (queue s i ! position)) of
              Inl e \<Rightarrow> Some (s, Some e)
            | Inr s' \<Rightarrow> drain s' i (Suc position))
      else Some (s, None))"

declare drain.simps [code]

text \<open>
  The receiver closure of socket \<open>connection\<close>, called with a decrypted handshake reply
  \<open>[returnedNonce, connectionKey]\<close> (the key after the conversion from a serialised
  \<open>Buffer\<close>). The closure is called inside the \<open>try\<close> of the socket's data handler: an
  exception that leaves the drain loop ends the closure and is logged by the \<open>catch\<close>.
\<close>

definition handshakeReply ::
  "('pk, 'm) EncryptedTCPNetwork \<Rightarrow> nat \<Rightarrow> string \<Rightarrow> key \<Rightarrow> string
     \<Rightarrow> ('pk, 'm) EncryptedTCPNetwork option" where
  "handshakeReply s connection returnedNonce connectionKey freshNonce =
     (if connection < length (sockets s) then
        (let c = sockets s ! connection in
         if \<not> hasKey c then
           (if returnedNonce = nonce c then
              (let s1 = s\<lparr>connectionKeys := (connectionKeys s)(peer c \<mapsto> connectionKey),
                          sockets := (sockets s)[connection := c\<lparr>hasKey := True\<rparr>]\<rparr>
               in if bufferedData s1 (peer c) \<noteq> None then
                    (case drain s1 (peer c) 0 of
                       None \<Rightarrow> None
                     | Some (s2, None) \<Rightarrow> Some s2
                     | Some (s2, Some e) \<Rightarrow> Some (s2\<lparr>written := written s2 @ [ConsoleError e]\<rparr>))
                  else Some s1)
            else Some (connect s (peer c) (peerKey c) freshNonce))
         else Some s)
      else Some s)"

text \<open>
  What happens at a network object: \<open>registerNode\<close>, an \<open>error\<close> or \<open>end\<close> event on
  a socket (which calls \<open>connect()\<close>), a handshake reply arriving on a socket,
  \<open>sendMessage\<close> (a call that throws changes nothing), and \<open>registerReceiver\<close>.
\<close>

datatype ('pk, 'm) net_event =
  RegisterNode string 'pk string
| SocketLost nat string
| HandshakeReply nat string key string
| SendTo string string 'm
| RegisterReceiver string

fun net_step ::
  "('pk, 'm) EncryptedTCPNetwork \<Rightarrow> ('pk, 'm) net_event \<Rightarrow> ('pk, 'm) EncryptedTCPNetwork option" where
  "net_step s (RegisterNode i targetPublicKey freshNonce) =
     Some (registerNode s i targetPublicKey freshNonce)"
| "net_step s (SocketLost connection freshNonce) =
     Some (if connection < length (sockets s)
           then connect s (peer (sockets s ! connection)) (peerKey (sockets s ! connection)) freshNonce
           else s)"
| "net_step s (HandshakeReply connection returnedNonce connectionKey freshNonce) =
     handshakeReply s connection returnedNonce connectionKey freshNonce"
| "net_step s (SendTo targetId topic message) =
     (case sendMessage s targetId topic message of Inl e \<Rightarrow> Some s | Inr s' \<Rightarrow> Some s')"
| "net_step s (RegisterReceiver topic) =
     Some (s\<lparr>receiversByTopic := insert topic (receiversByTopic s)\<rparr>)"

fun net_run ::
  "('pk, 'm) EncryptedTCPNetwork \<Rightarrow> ('pk, 'm) net_event list \<Rightarrow> ('pk, 'm) EncryptedTCPNetwork option" where
  "net_run s [] = Some s"
| "net_run s (e # es) = (case net_step s e of None \<Rightarrow> None | Some s' \<Rightarrow> net_run s' es)"

text \<open>
  A handshake reply whose nonce the receiver closure of its socket accepts, on a socket
  that has no key yet; and such a reply with an AES-256 key (32 bytes), as
  \<open>generateSymmetricKey\<close> at the peer's server makes it.
\<close>

definition matching_reply :: "('pk, 'm) EncryptedTCPNetwork \<Rightarrow> nat \<Rightarrow> string \<Rightarrow> bool" where
  "matching_reply s connection returnedNonce =
     (connection < length (sockets s) \<and> \<not> hasKey (sockets s ! connection)
      \<and> returnedNonce = nonce (sockets s ! connection))"

definition accepted_reply :: "('pk, 'm) EncryptedTCPNetwork \<Rightarrow> nat \<Rightarrow> string \<Rightarrow> key \<Rightarrow> bool" where
  "accepted_reply s connection returnedNonce connectionKey =
     (matching_reply s connection returnedNonce \<and> keyLength connectionKey = 32)"

text \<open>How often a message was written to a socket under a topic, on any socket and key.\<close>

definition transmissions :: "string \<Rightarrow> 'm \<Rightarrow> ('pk, 'm) wire list \<Rightarrow> nat" where
  "transmissions topic message ws =
     length (filter (\<lambda>w. case w of WriteAES c k t m \<Rightarrow> t = topic \<and> m = message | _ \<Rightarrow> False) ws)"

text \<open>
  Relations between a state and a later one, and the invariant of the states a network
  object reaches: \<open>kept\<close> (what the drain loop leaves alone), \<open>extends\<close> (queues and
  output only grow), \<open>wired\<close> (every socket belongs to a remote peer that has a current
  connection).
\<close>

definition kept :: "('pk, 'm) EncryptedTCPNetwork \<Rightarrow> ('pk, 'm) EncryptedTCPNetwork \<Rightarrow> bool" where
  "kept s s' =
     (ownId s' = ownId s \<and> sockets s' = sockets s \<and> connections s' = connections s
      \<and> connectionKeys s' = connectionKeys s
      \<and> (\<forall>j. prefix (queue s j) (queue s' j)) \<and> prefix (written s) (written s'))"

definition extends :: "('pk, 'm) EncryptedTCPNetwork \<Rightarrow> ('pk, 'm) EncryptedTCPNetwork \<Rightarrow> bool" where
  "extends s s' =
     ((\<forall>j. prefix (queue s j) (queue s' j)) \<and> prefix (written s) (written s'))"

definition wired :: "('pk, 'm) EncryptedTCPNetwork \<Rightarrow> bool" where
  "wired s =
     (\<forall>c < length (sockets s).
        peer (sockets s ! c) \<noteq> ownId s \<and> connections s (peer (sockets s ! c)) \<noteq> None)"

text \<open>
  Concrete runs: node \<open>a\<close> registers peer \<open>b\<close> and sends before and after handshakes.
  The replies carry AES-256 keys, but for two: one with a key of 16 bytes, one with the
  empty string as key.
\<close>

definition key_one :: key where
  "key_one = KeyBuffer (replicate 32 1)"

definition key_two :: key where
  "key_two = KeyBuffer (replicate 32 2)"


definition buffering_run :: "(unit, string) net_event list" where
  "buffering_run =
     [RegisterNode ''b'' () ''n1'', SendTo ''b'' ''t'' ''m1'', SendTo ''b'' ''t'' ''m2'']"

definition net_buffered :: "(unit, string) EncryptedTCPNetwork" where
  "net_buffered = the (net_run (newEncryptedTCPNetwork ''a'') buffering_run)"

definition net_drained :: "(unit, string) EncryptedTCPNetwork" where
  "net_drained = the (net_step net_buffered (HandshakeReply 0 ''n1'' key_one ''n2''))"

definition net_reconnected :: "(unit, string) EncryptedTCPNetwork" where
  "net_reconnected = the (net_run net_drained [SocketLost 0 ''n3'', SendTo ''b'' ''t'' ''m3''])"

definition net_drained_again :: "(unit, string) EncryptedTCPNetwork" where
  "net_drained_again =
     the (net_step net_reconnected (HandshakeReply 1 ''n3'' key_two ''n4''))"


section \<open>Framing: \<open>TCPNetwork.send\<close> and \<open>TCPNetwork.setReceiver\<close> (src/src/network/TCPNetwork.ts)\<close>

text \<open>
  \<open>Buffer.from(n.toString())\<close> for a length \<open>n\<close>: its decimal digits in ASCII.
\<close>

definition digit :: "nat \<Rightarrow> byte" where
  "digit d = of_nat (48 + d)"

function decimal :: "nat \<Rightarrow> byte list" where
  "decimal n = (if n < 10 then [digit n] else decimal (n div 10) @ [digit (n mod 10)])"
  by pat_completeness auto
termination
  by (relation "measure (\<lambda>n. n)") auto

declare decimal.simps [simp del]

text \<open>
  \<open>buffer.findIndex(num => num == 0)\<close>: the first index whose element satisfies the
  predicate, \<open>-1\<close> when there is none.
\<close>

fun findIndex :: "('a \<Rightarrow> bool) \<Rightarrow> 'a list \<Rightarrow> int" where
  "findIndex p [] = - 1"
| "findIndex p (x # xs) =
     (if p x then 0 else (let i = findIndex p xs in if i < 0 then - 1 else i + 1))"

text \<open>
  \<open>buffer.subarray(start, end)\<close> and \<open>buffer.subarray(start)\<close>: a negative index
  counts from the end, and every index is cut to the range of the buffer.
\<close>

definition relativeIndex :: "nat \<Rightarrow> int \<Rightarrow> nat" where
  "relativeIndex len i = (if i < 0 then nat (max 0 (int len + i)) else min len (nat i))"

definition subarray :: "byte list \<Rightarrow> int \<Rightarrow> int \<Rightarrow> byte list" where
  "subarray buffer start end =
     take (relativeIndex (length buffer) end - relativeIndex (length buffer) start)
          (drop (relativeIndex (length buffer) start) buffer)"

definition subarray_from :: "byte list \<Rightarrow> int \<Rightarrow> byte list" where
  "subarray_from buffer start = drop (relativeIndex (length buffer) start) buffer"

text \<open>
  \<open>TCPNetwork.send\<close> writes the length, a zero byte and the body
  \<open>Buffer.from(JSON.stringify(data))\<close>; \<open>frame\<close> is that for a given body, and
  \<open>stringify\<close> is the parameter for \<open>JSON.stringify\<close> followed by the UTF-8 encoding.
\<close>

definition frame :: "byte list \<Rightarrow> byte list" where
  "frame buffer = decimal (length buffer) @ [0] @ buffer"

definition TCPNetwork_send :: "('v \<Rightarrow> byte list) \<Rightarrow> 'v \<Rightarrow> byte list" where
  "TCPNetwork_send stringify data = frame (stringify data)"

text \<open>
  The \<open>data\<close> handler installed by \<open>setReceiver\<close> is an \<open>async\<close> function. A run
  of it joins \<open>lastBuffer\<close> and the chunk into its local \<open>buffer\<close> and enters the
  \<open>while\<close> loop. The loop goes on by itself until it ends (the handler then stores its
  \<open>buffer\<close> in \<open>lastBuffer\<close>) or until it has called \<open>receive\<close>: at
  \<open>await receive(...)\<close> the run is suspended, holding its \<open>buffer\<close>, and goes on at the
  loop's condition once the promise has settled (a rejection is caught and logged).
  \<open>dataLoop\<close> is the loop up to the first such point.

  \<open>toNumber\<close> is JavaScript's coercion \<open>- -(s)\<close> of the length prefix to a number,
  \<open>None\<close> for \<open>NaN\<close> (with which the comparison fails and the loop stops); only integer
  values are covered. \<open>parse\<close> is \<open>JSON.parse(content.toString())\<close>, \<open>None\<close> when it
  throws: the \<open>catch\<close> logs the error and the loop goes on at once. A negative length can
  make the loop run forever; \<open>None\<close> as the result of the loop stands for that.
\<close>

datatype 'v loop_result = LoopEnded "byte list" | AwaitingReceive 'v "byte list"

partial_function (option) dataLoop ::
  "(byte list \<Rightarrow> int option) \<Rightarrow> (byte list \<Rightarrow> 'v option) \<Rightarrow> byte list
     \<Rightarrow> 'v loop_result option" where
  "dataLoop toNumber parse buffer =
     (if length buffer > 0 then
        (let lengthEnd = findIndex (\<lambda>num. num = 0) buffer in
         if lengthEnd > 0 then
           (case toNumber (subarray buffer 0 lengthEnd) of
              None \<Rightarrow> Some (LoopEnded buffer)
            | Some len \<Rightarrow>
                (let contentStart = lengthEnd + 1 in
                 if contentStart + len \<le> int (length buffer) then
                   (let content = subarray buffer contentStart (contentStart + len);
                        buffer' = subarray_from buffer (contentStart + len)
                    in if length content > 0
                       then (case parse content of
                               None \<Rightarrow> dataLoop toNumber parse buffer'
                             | Some data \<Rightarrow> Some (AwaitingReceive data buffer'))
                       else dataLoop toNumber parse buffer')
                 else Some (LoopEnded buffer)))
         else Some (LoopEnded buffer))
      else Some (LoopEnded buffer))"

declare dataLoop.simps [code]

text \<open>
  The state behind one \<open>setReceiver\<close> call: the closure variable \<open>lastBuffer\<close>, the
  local buffers of the handler runs that are suspended at \<open>await receive(...)\<close>, and the
  arguments of the \<open>receive\<close> calls made so far, in the order of the calls.
\<close>

record 'v receiver_state =
  lastBuffer :: "byte list"
  suspended :: "byte list list"
  receiveCalls :: "'v list"

definition setReceiver :: "'v receiver_state" where
  "setReceiver = \<lparr>lastBuffer = [], suspended = [], receiveCalls = []\<rparr>"

text \<open>
  Two things happen to it: a \<open>data\<close> event brings a chunk and starts a handler run, or
  the promise of a pending \<open>receive\<close> call settles and the run suspended there goes on
  (the run is named by its position among the suspended ones). Node.js runs one of them at
  a time, each up to its next suspension or its end; a chunk may well arrive while a
  \<open>receive\<close> call is pending.
\<close>

datatype receiver_event = DataEvent "byte list" | ReceiveSettled nat

fun receiver_step ::
  "(byte list \<Rightarrow> int option) \<Rightarrow> (byte list \<Rightarrow> 'v option) \<Rightarrow> 'v receiver_state
     \<Rightarrow> receiver_event \<Rightarrow> 'v receiver_state option" where
  "receiver_step toNumber parse s (DataEvent buffer) =
     (case dataLoop toNumber parse (lastBuffer s @ buffer) of
        None \<Rightarrow> None
      | Some (LoopEnded b) \<Rightarrow> Some (s\<lparr>lastBuffer := b\<rparr>)
      | Some (AwaitingReceive data b) \<Rightarrow>
          Some (s\<lparr>suspended := suspended s @ [b], receiveCalls := receiveCalls s @ [data]\<rparr>))"
| "receiver_step toNumber parse s (ReceiveSettled run) =
     (if run < length (suspended s) then
        (case dataLoop toNumber parse (suspended s ! run) of
           None \<Rightarrow> None
         | Some (LoopEnded b) \<Rightarrow>
             Some (s\<lparr>lastBuffer := b,
                     suspended := take run (suspended s) @ drop (Suc run) (suspended s)\<rparr>)
         | Some (AwaitingReceive data b) \<Rightarrow>
             Some (s\<lparr>suspended := (suspended s)[run := b],
                     receiveCalls := receiveCalls s @ [data]\<rparr>))
      else Some s)"

fun receiver_run ::
  "(byte list \<Rightarrow> int option) \<Rightarrow> (byte list \<Rightarrow> 'v option) \<Rightarrow> 'v receiver_state
     \<Rightarrow> receiver_event list \<Rightarrow> 'v receiver_state option" where
  "receiver_run toNumber parse s [] = Some s"
| "receiver_run toNumber parse s (e # es) =
     (case receiver_step toNumber parse s e of
        None \<Rightarrow> None
      | Some s' \<Rightarrow> receiver_run toNumber parse s' es)"

text \<open>
  The schedule in which every \<open>receive\<close> call has settled, and the run that made it has
  ended, before the next chunk arrives: after each \<open>data\<close> event the suspended run goes
  on until none is left.
\<close>

partial_function (option) settleAll ::
  "(byte list \<Rightarrow> int option) \<Rightarrow> (byte list \<Rightarrow> 'v option) \<Rightarrow> 'v receiver_state
     \<Rightarrow> 'v receiver_state option" where
  "settleAll toNumber parse s =
     (if suspended s = [] then Some s
      else (case receiver_step toNumber parse s (ReceiveSettled 0) of
              None \<Rightarrow> None
            | Some s' \<Rightarrow> settleAll toNumber parse s'))"

declare settleAll.simps [code]

fun deliverInTurn ::
  "(byte list \<Rightarrow> int option) \<Rightarrow> (byte list \<Rightarrow> 'v option) \<Rightarrow> 'v receiver_state
     \<Rightarrow> byte list list \<Rightarrow> 'v receiver_state option" where
  "deliverInTurn toNumber parse s [] = Some s"
| "deliverInTurn toNumber parse s (chunk # chunks) =
     (case receiver_step toNumber parse s (DataEvent chunk) of
        None \<Rightarrow> None
      | Some s1 \<Rightarrow>
          (case settleAll toNumber parse s1 of
             None \<Rightarrow> None
           | Some s2 \<Rightarrow> deliverInTurn toNumber parse s2 chunks))"

text \<open>
  For concrete runs: the coercion on plain decimal numerals (any other prefix is taken for
  \<open>NaN\<close>), and a stand-in for JSON on strings that need no escaping, and on the pairs
  \<open>[topic, message]\<close> of such strings (no comma in the topic) that \<open>sendMessage\<close> hands
  to \<open>TCPNetwork.send\<close>: the text of a string is the string between two double quotes, the
  text of a pair is the two texts, separated by a comma, between brackets. No text is
  empty.
\<close>

definition isDigit :: "byte \<Rightarrow> bool" where
  "isDigit b = (48 \<le> unat b \<and> unat b \<le> 57)"

definition parseDecimal :: "byte list \<Rightarrow> int option" where
  "parseDecimal bs =
     (if bs \<noteq> [] \<and> list_all isDigit bs
      then Some (int (foldl (\<lambda>a b. 10 * a + (unat b - 48)) 0 bs))
      else None)"

definition quoted_stringify :: "byte list \<Rightarrow> byte list" where
  "quoted_stringify str = [34] @ str @ [34]"

definition quoted_parse :: "byte list \<Rightarrow> byte list option" where
  "quoted_parse content =
     (if 2 \<le> length content \<and> hd content = 34 \<and> last content = 34
      then Some (butlast (tl content)) else None)"

definition pair_stringify :: "byte list \<times> byte list \<Rightarrow> byte list" where
  "pair_stringify data =
     [91] @ quoted_stringify (fst data) @ [44] @ quoted_stringify (snd data) @ [93]"

definition pair_parse :: "byte list \<Rightarrow> (byte list \<times> byte list) option" where
  "pair_parse content =
     (if 2 \<le> length content \<and> hd content = 91 \<and> last content = 93 then
        (let inner = butlast (tl content);
             first = takeWhile (\<lambda>b. b \<noteq> 44) inner;
             second = drop (Suc (length first)) inner
         in case (quoted_parse first, quoted_parse second) of
              (Some topic, Some message) \<Rightarrow> Some (topic, message)
            | _ \<Rightarrow> None)
      else None)"

text \<open>
  A concrete run: a peer calls \<open>sendMessage(id, "t", "a")\<close> and then
  \<open>sendMessage(id, "t", "b")\<close>. The 22 bytes of the two frames arrive in two chunks, the
  first one ending with the first byte of the second frame. In \<open>overlapping\<close> the second
  chunk arrives while the \<open>receive\<close> call for the first frame is pending.
\<close>

definition message_a :: "byte list \<times> byte list" where
  "message_a = ([116], [97])"

definition message_b :: "byte list \<times> byte list" where
  "message_b = ([116], [98])"

definition first_chunk :: "byte list" where
  "first_chunk = [57, 0, 91, 34, 116, 34, 44, 34, 97, 34, 93, 57]"

definition second_chunk :: "byte list" where
  "second_chunk = [0, 91, 34, 116, 34, 44, 34, 98, 34, 93]"

definition overlapping :: "receiver_event list" where
  "overlapping = [DataEvent first_chunk, DataEvent second_chunk, ReceiveSettled 0]"


section \<open>RSA chunking: \<open>encryptRSA\<close> and \<open>decryptRSA\<close> (src/src/network/EncryptedTCPNetwork.ts)\<close>












section \<open>Properties of GeneralMessageDistributor\<close>

lemma set_add_set: "set (set_add x xs) = insert x (set xs)"
  by (auto simp: set_add_def)

lemma set_add_distinct: "distinct xs \<Longrightarrow> distinct (set_add x xs)"
  by (simp add: set_add_def)

lemma addReceivers_snoc: "addReceivers (added @ [r]) = addReceiver r (addReceivers added)"
  by (simp add: addReceivers_def)

lemma addReceivers_distinct: "distinct (receivers (addReceivers added))"
proof (induction added rule: rev_induct)
  case Nil
  show ?case by (simp add: addReceivers_def newGeneralMessageDistributor_def)
next
  case (snoc r added)
  then show ?case by (simp add: addReceivers_snoc addReceiver_def set_add_distinct)
qed

lemma addReceivers_set: "set (receivers (addReceivers added)) = set added"
proof (induction added rule: rev_induct)
  case Nil
  show ?case by (simp add: addReceivers_def newGeneralMessageDistributor_def)
next
  case (snoc r added)
  then show ?case by (simp add: addReceivers_snoc addReceiver_def set_add_set)
qed

lemma deliver_loop_events:
  "fst (deliver_loop resolves rs message) =
     concat (map (\<lambda>r. [Invoked r message, Returned r]) (takeWhile (\<lambda>r. resolves r message) rs))
     @ (case dropWhile (\<lambda>r. resolves r message) rs of
          [] \<Rightarrow> [] | r # _ \<Rightarrow> [Invoked r message, Rejected r])"
  by (induction rs) (auto split: prod.splits)

lemma deliver_loop_ok:
  "snd (deliver_loop resolves rs message) = (\<forall>r \<in> set rs. resolves r message)"
  by (induction rs) (auto split: prod.splits)

text \<open>
  Claim C10, as stated: \<open>addReceiver\<close> appends the given receiver to the held collection,
  and \<open>deliver\<close> invokes every receiver added before. The first part fails when the
  receiver is already held: \<open>receivers\<close> is a \<open>Set\<close>, so adding the same callback a
  second time leaves one entry, and \<open>deliver\<close> invokes it once. The second part fails
  when a receiver rejects: the \<open>await\<close> throws, the loop ends, and the receivers after it
  are not invoked.
\<close>

theorem C10_append_counterexample:
  "receivers (addReceiver (7::nat) (addReceiver 7 newGeneralMessageDistributor))
     \<noteq> receivers (addReceiver (7::nat) newGeneralMessageDistributor) @ [7]
   \<and> deliver always_resolves (addReceiver (7::nat) (addReceiver 7 newGeneralMessageDistributor)) ''m''
       = ([Invoked 7 ''m'', Returned 7], True)
   \<and> deliver first_rejects (addReceiver 2 (addReceiver 1 newGeneralMessageDistributor)) ''m''
       = ([Invoked 1 ''m'', Rejected 1], False)"
  by (simp add: addReceiver_def newGeneralMessageDistributor_def set_add_def deliver_def
        always_resolves_def first_rejects_def)

text \<open>
  Claim C10, amended: \<open>addReceiver\<close> adds the receiver to the held set: a receiver not yet
  held is put last, a receiver already held leaves the collection as it is, so after any
  sequence of \<open>addReceiver\<close> calls every added receiver is held exactly once.
  \<open>deliver(message)\<close> invokes the held receivers with that message in the order of the
  collection, each one after the previous one has returned, up to and including the first
  receiver that rejects; it resolves exactly when no held receiver rejects, and then every
  held receiver was invoked exactly once.
\<close>

theorem C10_deliver_set_order:
  "receivers (addReceiver r d) = (if r \<in> set (receivers d) then receivers d else receivers d @ [r])
   \<and> distinct (receivers (addReceivers added))
   \<and> set (receivers (addReceivers added)) = set added
   \<and> fst (deliver resolves d message) =
       concat (map (\<lambda>r. [Invoked r message, Returned r])
                   (takeWhile (\<lambda>r. resolves r message) (receivers d)))
       @ (case dropWhile (\<lambda>r. resolves r message) (receivers d) of
            [] \<Rightarrow> [] | r # rest \<Rightarrow> [Invoked r message, Rejected r])
   \<and> snd (deliver resolves d message) = (\<forall>r \<in> set (receivers d). resolves r message)"
  using addReceivers_distinct[of added] addReceivers_set[of added]
    deliver_loop_events[of resolves "receivers d" message]
    deliver_loop_ok[of resolves "receivers d" message]
  by (simp add: addReceiver_def set_add_def deliver_def)

theorem C10_deliver_set_order_witness:
  "receivers (addReceiver (8::nat) (addReceivers [7, 8, 7, 9])) = [7, 8, 9]
   \<and> deliver always_resolves (addReceivers [7, 8, 7, 9]) ''m''
       = ([Invoked 7 ''m'', Returned 7, Invoked 8 ''m'', Returned 8, Invoked 9 ''m'', Returned 9],
          True)"
  using C10_deliver_set_order[of 8 "addReceivers [7, 8, 7, 9]" "[7, 8, 7, 9]" always_resolves "''m''"]
  by (simp add: addReceivers_def addReceiver_def newGeneralMessageDistributor_def set_add_def
        deliver_def always_resolves_def)


section \<open>Properties of CachedMessageHandler\<close>

lemma addReceiversFor_snoc:
  "addReceiversFor ser h (calls @ [c]) =
     fst (addReceiverFor ser (addReceiversFor ser h calls) (fst c) (snd c) :: ('f, 'm) CachedMessageHandler \<times> unit handler_error option)"
  by (simp add: addReceiversFor_def)

lemma addReceiversFor_has:
  "SerializedMap_has ser (messageReceiverByTarget (addReceiversFor ser newCachedMessageHandler calls)) target
     = (\<exists>c \<in> set calls. ser (fst c) = ser target)"
proof (induction calls rule: rev_induct)
  case Nil
  show ?case by (simp add: addReceiversFor_def newCachedMessageHandler_def SerializedMap_has_def)
next
  case (snoc c calls)
  then show ?case
    by (cases c) (force simp: addReceiversFor_snoc addReceiverFor_def SerializedMap_has_def SerializedMap_set_def)
qed

text \<open>
  Claim C9: \<open>addReceiverFor(target, fn)\<close> throws exactly when a receiver is already
  registered under the serialised form of \<open>target\<close> (after a sequence of registrations
  from a new handler: exactly when one of them had a target with the same serialised form),
  and then the receiver map is unchanged. \<open>deliverMessage\<close> calls the registered receiver
  when there is one, without consulting the factory; otherwise it runs
  \<open>createFromReference\<close>, and after a factory run that returns, it throws the
  receiver-missing error if the target still has no receiver and calls the receiver
  registered by then otherwise. An error thrown by the factory or by the receiver leaves
  \<open>deliverMessage\<close> as it is.
\<close>

theorem C9_router_errors:
  fixes h :: "('f, 'm) CachedMessageHandler"
    and createFromReference :: "'t \<Rightarrow> ('f, 'm) CachedMessageHandler \<Rightarrow> ('f, 'm) CachedMessageHandler \<times> 'x option"
  shows
  "(snd (addReceiverFor ser h target f :: ('f, 'm) CachedMessageHandler \<times> 'x handler_error option) = Some ReceiverExists)
      = SerializedMap_has ser (messageReceiverByTarget h) target
   \<and> (snd (addReceiverFor ser h target f :: ('f, 'm) CachedMessageHandler \<times> 'x handler_error option) = None)
      = (\<not> SerializedMap_has ser (messageReceiverByTarget h) target)
   \<and> (SerializedMap_has ser (messageReceiverByTarget h) target \<longrightarrow>
        fst (addReceiverFor ser h target f :: ('f, 'm) CachedMessageHandler \<times> 'x handler_error option) = h)
   \<and> SerializedMap_has ser
        (messageReceiverByTarget (addReceiversFor ser (newCachedMessageHandler :: ('f, 'm) CachedMessageHandler) calls)) target
      = (\<exists>c \<in> set calls. ser (fst c) = ser target)
   \<and> (\<forall>g. SerializedMap_get ser (messageReceiverByTarget h) target = Some g \<longrightarrow>
        deliverMessage ser createFromReference runs h target message
          = (h\<lparr>handled := handled h @ [(g, message)]\<rparr>, map_option Thrown (runs g message)))
   \<and> (\<forall>h1 e. \<not> SerializedMap_has ser (messageReceiverByTarget h) target
          \<and> createFromReference target h = (h1, Some e) \<longrightarrow>
        deliverMessage ser createFromReference runs h target message = (h1, Some (Thrown e)))
   \<and> (\<forall>h1. \<not> SerializedMap_has ser (messageReceiverByTarget h) target
          \<and> createFromReference target h = (h1, None)
          \<and> \<not> SerializedMap_has ser (messageReceiverByTarget h1) target \<longrightarrow>
        deliverMessage ser createFromReference runs h target message = (h1, Some ReceiverMissing))
   \<and> (\<forall>h1 g. \<not> SerializedMap_has ser (messageReceiverByTarget h) target
          \<and> createFromReference target h = (h1, None)
          \<and> SerializedMap_get ser (messageReceiverByTarget h1) target = Some g \<longrightarrow>
        deliverMessage ser createFromReference runs h target message
          = (h1\<lparr>handled := handled h1 @ [(g, message)]\<rparr>, map_option Thrown (runs g message)))"
  using addReceiversFor_has[of ser calls target]
  by (auto simp: addReceiverFor_def deliverMessage_def SerializedMap_has_def SerializedMap_get_def)

theorem C9_router_errors_witness:
  "SerializedMap_has (\<lambda>t. t) (messageReceiverByTarget one_receiver) ''T''
   \<and> addReceiverFor (\<lambda>t. t) one_receiver ''T'' 6 = (one_receiver, Some (ReceiverExists :: unit handler_error))
   \<and> deliverMessage (\<lambda>t. t) idle_factory quiet_receiver one_receiver ''T'' ''m''
       = (one_receiver\<lparr>handled := [(5, ''m'')]\<rparr>, None)
   \<and> deliverMessage (\<lambda>t. t) failing_factory quiet_receiver newCachedMessageHandler ''T'' ''m''
       = (newCachedMessageHandler, Some (Thrown ()))
   \<and> deliverMessage (\<lambda>t. t) idle_factory quiet_receiver newCachedMessageHandler ''T'' ''m''
       = (newCachedMessageHandler, Some ReceiverMissing)
   \<and> deliverMessage (\<lambda>t. t) registering_factory quiet_receiver newCachedMessageHandler ''T'' ''m''
       = (one_receiver\<lparr>handled := [(5, ''m'')]\<rparr>, None)"
  using C9_router_errors[where ser="\<lambda>t. t" and h=one_receiver and target="''T''" and f=6
          and calls="[(''T'', 5)]" and createFromReference=idle_factory and runs=quiet_receiver
          and message="''m''" and 'x=unit]
        C9_router_errors[where ser="\<lambda>t. t" and h=newCachedMessageHandler and target="''T''" and f=6
          and calls="[(''T'', 5)]" and createFromReference=failing_factory and runs=quiet_receiver
          and message="''m''" and 'x=unit]
        C9_router_errors[where ser="\<lambda>t. t" and h=newCachedMessageHandler and target="''T''" and f=6
          and calls="[(''T'', 5)]" and createFromReference=idle_factory and runs=quiet_receiver
          and message="''m''" and 'x=unit]
        C9_router_errors[where ser="\<lambda>t. t" and h=newCachedMessageHandler and target="''T''" and f=6
          and calls="[(''T'', 5)]" and createFromReference=registering_factory and runs=quiet_receiver
          and message="''m''" and 'x=unit]
  by (simp add: one_receiver_def addReceiversFor_def addReceiverFor_def newCachedMessageHandler_def
        SerializedMap_has_def SerializedMap_get_def SerializedMap_set_def deliverMessage_def
        idle_factory_def failing_factory_def registering_factory_def quiet_receiver_def)


section \<open>Properties of the readiness barrier\<close>

lemma barrier_run_snoc:
  "barrier_run topic ids (evs @ [ev]) = setupReceiver topic (barrier_run topic ids evs) ev"
  by (simp add: barrier_run_def)

lemma barrier_empty_state:
  "barrier_run topic [] evs = waitForEveryone topic []"
proof (induction evs rule: rev_induct)
  case Nil
  show ?case by (simp add: barrier_run_def)
next
  case (snoc ev evs)
  then show ?case
    by (simp add: barrier_run_snoc setupReceiver_def waitForEveryone_def split: prod.splits)
qed

text \<open>
  Claim C8 at \<open>otherIDs = {}\<close>: every id of the empty set has been heard from, from the
  start, yet \<open>resolve()\<close> is never called, whatever is received afterwards: the only
  call of \<open>resolve\<close> is inside the branch guarded by \<open>missingNodes.has(greeterId)\<close>,
  which no sender satisfies once the set is empty.
\<close>

theorem C8_empty_never_resolves:
  "\<not> isResolved (barrier_run topic [] evs) \<and> sentMessages (barrier_run topic [] evs) = []"
  by (simp add: barrier_empty_state isResolved_def waitForEveryone_def)

text \<open>
  For comparison: when every awaited reply resolves, the barrier over a non-empty set is
  resolved exactly when every id was heard from, and the ids still missing are the ones not
  heard from.
\<close>

lemma barrier_invariant:
  assumes "\<forall>ev \<in> set evs. snd ev"
  shows "missingNodes (barrier_run topic ids evs) = filter (\<lambda>i. i \<notin> fst ` set evs) ids
       \<and> (isResolved (barrier_run topic ids evs) = (ids \<noteq> [] \<and> set ids \<subseteq> fst ` set evs))"
  using assms
proof (induction evs rule: rev_induct)
  case Nil
  show ?case by (auto simp: barrier_run_def waitForEveryone_def isResolved_def filter_empty_conv)
next
  case (snoc ev evs)
  obtain g ok where ev: "ev = (g, ok)" by (cases ev)
  from snoc.prems ev have ok: ok by simp
  let ?b = "barrier_run topic ids evs"
  from snoc have IH1: "missingNodes ?b = filter (\<lambda>i. i \<notin> fst ` set evs) ids"
    and IH2: "isResolved ?b = (ids \<noteq> [] \<and> set ids \<subseteq> fst ` set evs)" by auto
  show ?case
  proof (cases "g \<in> set (missingNodes ?b)")
    case True
    then have gin: "g \<in> set ids" "g \<notin> fst ` set evs" using IH1 by auto
    have m0: "missingNodes (setupReceiver topic ?b ev) = set_delete g (missingNodes ?b)"
      using True ev ok by (simp add: setupReceiver_def Let_def)
    have m1: "set_delete g (missingNodes ?b) = filter (\<lambda>i. i \<notin> fst ` set (evs @ [ev])) ids"
      unfolding IH1 set_delete_def filter_filter using ev by (intro filter_cong) auto
    have notres: "\<not> isResolved ?b" using IH2 gin by auto
    have r: "isResolved (setupReceiver topic ?b ev) = (set_delete g (missingNodes ?b) = [])"
      using True ev ok notres by (auto simp: setupReceiver_def Let_def isResolved_def)
    have "(filter (\<lambda>i. i \<notin> fst ` set (evs @ [ev])) ids = []) = (set ids \<subseteq> fst ` set (evs @ [ev]))"
      by (auto simp: filter_empty_conv)
    with r m0 m1 gin show ?thesis by (auto simp: barrier_run_snoc)
  next
    case False
    then have same: "setupReceiver topic ?b ev = ?b" using ev by (simp add: setupReceiver_def)
    have "filter (\<lambda>i. i \<notin> fst ` set (evs @ [ev])) ids = filter (\<lambda>i. i \<notin> fst ` set evs) ids"
      using False IH1 ev by (auto intro!: filter_cong)
    moreover have "(set ids \<subseteq> fst ` set (evs @ [ev])) = (set ids \<subseteq> fst ` set evs)"
      using False IH1 ev by auto
    ultimately show ?thesis using IH1 IH2 same by (simp add: barrier_run_snoc)
  qed
qed

section \<open>Properties of ReliableMessageDistributor\<close>

lemma faultyNodeCount_div: "faultyNodeCount d = (int (length (nodeIDs d)) - 1) div 3"
  by (simp add: faultyNodeCount_def nodeCount_def floor_divide_of_int_eq[where ?'a = rat, symmetric] del: floor_divide_of_int_eq)

lemma getMessageState_state_at [simp]:
  "state_at (fst (getMessageState sha d m)) h = state_at d h"
  by (simp add: getMessageState_def state_at_def Let_def newMessageState_def split: option.splits)

lemma getMessageState_effects [simp]: "effects (fst (getMessageState sha d m)) = effects d"
  by (simp add: getMessageState_def Let_def split: option.splits)

lemma getMessageState_nodeIDs [simp]: "nodeIDs (fst (getMessageState sha d m)) = nodeIDs d"
  by (simp add: getMessageState_def Let_def split: option.splits)

lemma getMessageState_snd [simp]:
  "snd (getMessageState sha d m) = state_at d (hashMessage sha m)"
  by (simp add: getMessageState_def state_at_def Let_def split: option.splits)

lemma putMessageState_state_at [simp]:
  "state_at (putMessageState sha d m ms) h = (if h = hashMessage sha m then ms else state_at d h)"
  by (simp add: putMessageState_def state_at_def)

lemma putMessageState_effects [simp]: "effects (putMessageState sha d m ms) = effects d"
  by (simp add: putMessageState_def)

lemma putMessageState_nodeIDs [simp]: "nodeIDs (putMessageState sha d m ms) = nodeIDs d"
  by (simp add: putMessageState_def)

lemma sendToEveryone_state_at [simp]: "state_at (sendToEveryone d topic m) h = state_at d h"
  by (simp add: sendToEveryone_def state_at_def)

lemma sendToEveryone_nodeIDs [simp]: "nodeIDs (sendToEveryone d topic m) = nodeIDs d"
  by (simp add: sendToEveryone_def)

lemma sendToEveryone_effects [simp]:
  "effects (sendToEveryone d topic m) = effects d @ map (\<lambda>nodeId. SendMessage nodeId topic m) (nodeIDs d)"
  by (simp add: sendToEveryone_def)

lemma state_at_effects_update [simp]: "state_at (d\<lparr>effects := es\<rparr>) h = state_at d h"
  by (simp add: state_at_def)

lemma echoMessage_state_at:
  "state_at (echoMessage sha d m) h =
     (if h = hashMessage sha m then (state_at d h)\<lparr>wasEchoSent := True\<rparr> else state_at d h)"
  by (auto simp: echoMessage_def split_beta)

lemma echoMessage_effects:
  "effects (echoMessage sha d m) =
     effects d @ (if wasEchoSent (state_at d (hashMessage sha m)) then []
                  else map (\<lambda>nodeId. SendMessage nodeId ''echo'' m) (nodeIDs d))"
  by (simp add: echoMessage_def split_beta)

lemma echoMessage_nodeIDs [simp]: "nodeIDs (echoMessage sha d m) = nodeIDs d"
  by (simp add: echoMessage_def split_beta)

lemma readyMessage_state_at:
  "state_at (readyMessage sha d m) h =
     (if h = hashMessage sha m \<and> \<not> wasReadySent (state_at d h)
      then (state_at d h)\<lparr>wasReadySent := True, echoSenders := None\<rparr> else state_at d h)"
  by (auto simp: readyMessage_def split_beta)

lemma readyMessage_effects:
  "effects (readyMessage sha d m) =
     effects d @ (if wasReadySent (state_at d (hashMessage sha m)) then []
                  else map (\<lambda>nodeId. SendMessage nodeId ''ready'' m) (nodeIDs d))"
  by (simp add: readyMessage_def split_beta)

lemma readyMessage_nodeIDs [simp]: "nodeIDs (readyMessage sha d m) = nodeIDs d"
  by (simp add: readyMessage_def split_beta)

lemma acceptMessage_state_at:
  "state_at (acceptMessage sha d m) h =
     (if h = hashMessage sha m \<and> \<not> wasAccepted (state_at d h)
      then (state_at d h)\<lparr>wasAccepted := True, readySenders := None\<rparr> else state_at d h)"
  by (auto simp: acceptMessage_def split_beta Let_def)

lemma acceptMessage_effects:
  "effects (acceptMessage sha d m) =
     effects d @ (if wasAccepted (state_at d (hashMessage sha m)) then []
                  else [Deliver m (getContentOfMessage m)])"
  by (simp add: acceptMessage_def split_beta Let_def)

lemma acceptMessage_nodeIDs [simp]: "nodeIDs (acceptMessage sha d m) = nodeIDs d"
  by (simp add: acceptMessage_def split_beta Let_def)

lemma registerEchoMessage_state_at:
  "state_at (registerEchoMessage sha d s m) h =
     (if h = hashMessage sha m
      then (state_at d h)\<lparr>echoSenders := map_option (set_add s) (echoSenders (state_at d h))\<rparr>
      else state_at d h)"
  by (simp add: registerEchoMessage_def split_beta split: option.splits)

lemma registerEchoMessage_effects [simp]: "effects (registerEchoMessage sha d s m) = effects d"
  by (simp add: registerEchoMessage_def split_beta split: option.splits)

lemma registerEchoMessage_nodeIDs [simp]: "nodeIDs (registerEchoMessage sha d s m) = nodeIDs d"
  by (simp add: registerEchoMessage_def split_beta split: option.splits)

lemma registerReadyMessage_state_at:
  "state_at (registerReadyMessage sha d s m) h =
     (if h = hashMessage sha m
      then (state_at d h)\<lparr>readySenders := map_option (set_add s) (readySenders (state_at d h))\<rparr>
      else state_at d h)"
  by (simp add: registerReadyMessage_def split_beta split: option.splits)

lemma registerReadyMessage_effects [simp]: "effects (registerReadyMessage sha d s m) = effects d"
  by (simp add: registerReadyMessage_def split_beta split: option.splits)

lemma registerReadyMessage_nodeIDs [simp]: "nodeIDs (registerReadyMessage sha d s m) = nodeIDs d"
  by (simp add: registerReadyMessage_def split_beta split: option.splits)

lemma isMessageReady_fst [simp]:
  "state_at (fst (isMessageReady sha d m)) h = state_at d h"
  "effects (fst (isMessageReady sha d m)) = effects d"
  "nodeIDs (fst (isMessageReady sha d m)) = nodeIDs d"
  by (simp_all add: isMessageReady_def split_beta)

lemma isMessageAccepted_fst [simp]:
  "state_at (fst (isMessageAccepted sha d m)) h = state_at d h"
  "effects (fst (isMessageAccepted sha d m)) = effects d"
  "nodeIDs (fst (isMessageAccepted sha d m)) = nodeIDs d"
  by (simp_all add: isMessageAccepted_def split_beta)

lemma isMessageReady_snd:
  "snd (isMessageReady sha d m) =
     ((\<exists>senders. readySenders (state_at d (hashMessage sha m)) = Some senders
          \<and> int (length senders) \<ge> (int (length (nodeIDs d)) - 1) div 3 + 1)
      \<or> (\<exists>senders. echoSenders (state_at d (hashMessage sha m)) = Some senders
          \<and> (of_nat (length senders) :: rat)
               > of_int (int (length (nodeIDs d)) + (int (length (nodeIDs d)) - 1) div 3) / 2))"
  by (auto simp: isMessageReady_def split_beta faultyNodeCount_div nodeCount_def split: option.splits)

lemma isMessageAccepted_snd:
  "snd (isMessageAccepted sha d m) =
     (\<exists>senders. readySenders (state_at d (hashMessage sha m)) = Some senders
          \<and> int (length senders) \<ge> 2 * ((int (length (nodeIDs d)) - 1) div 3) + 1)"
  by (auto simp: isMessageAccepted_def split_beta faultyNodeCount_div nodeCount_def split: option.splits)

lemma sends_append [simp]:
  "sends sha topic h n (es @ es') = sends sha topic h n es + sends sha topic h n es'"
  by (simp add: sends_def)

lemma deliveries_append [simp]:
  "deliveries sha h (es @ es') = deliveries sha h es + deliveries sha h es'"
  by (simp add: deliveries_def)

lemma sends_Nil [simp]: "sends sha topic h n [] = 0"
  by (simp add: sends_def)

lemma deliveries_Nil [simp]: "deliveries sha h [] = 0"
  by (simp add: deliveries_def)

lemma sends_to_everyone:
  "sends sha topic h n (map (\<lambda>nodeId. SendMessage nodeId t m) ids) =
     (if t = topic \<and> hashMessage sha m = h then count_list ids n else 0)"
  by (induction ids) (auto simp: sends_def)

lemma deliveries_to_everyone [simp]:
  "deliveries sha h (map (\<lambda>nodeId. SendMessage nodeId t m) ids) = 0"
  by (induction ids) (auto simp: deliveries_def)

lemma sends_Deliver [simp]: "sends sha topic h n [Deliver m c] = 0"
  by (simp add: sends_def)

lemma deliveries_Deliver [simp]:
  "deliveries sha h [Deliver m c] = (if hashMessage sha m = h then 1 else 0)"
  by (simp add: deliveries_def)

lemma consistent_new: "consistent sha (newReliableMessageDistributor ids)"
  by (simp add: consistent_def newReliableMessageDistributor_def state_at_def newMessageState_def)

lemma consistent_echoMessage: "consistent sha d \<Longrightarrow> consistent sha (echoMessage sha d m)"
  unfolding consistent_def
  by (intro allI, erule_tac x=h in allE)
     (auto simp: echoMessage_state_at echoMessage_effects sends_to_everyone)

lemma consistent_readyMessage: "consistent sha d \<Longrightarrow> consistent sha (readyMessage sha d m)"
  unfolding consistent_def
  by (intro allI, erule_tac x=h in allE)
     (auto simp: readyMessage_state_at readyMessage_effects sends_to_everyone)

lemma consistent_acceptMessage: "consistent sha d \<Longrightarrow> consistent sha (acceptMessage sha d m)"
  unfolding consistent_def
  by (intro allI, erule_tac x=h in allE)
     (auto simp: acceptMessage_state_at acceptMessage_effects)

lemma consistent_registerEchoMessage:
  "consistent sha d \<Longrightarrow> consistent sha (registerEchoMessage sha d s m)"
  unfolding consistent_def
  by (intro allI, erule_tac x=h in allE) (auto simp: registerEchoMessage_state_at)

lemma consistent_registerReadyMessage:
  "consistent sha d \<Longrightarrow> consistent sha (registerReadyMessage sha d s m)"
  unfolding consistent_def
  by (intro allI, erule_tac x=h in allE) (auto simp: registerReadyMessage_state_at)

lemma consistent_isMessageReady:
  "consistent sha d \<Longrightarrow> consistent sha (fst (isMessageReady sha d m))"
  by (simp add: consistent_def)

lemma consistent_isMessageAccepted:
  "consistent sha d \<Longrightarrow> consistent sha (fst (isMessageAccepted sha d m))"
  by (simp add: consistent_def)

lemma consistent_broadcast: "consistent sha d \<Longrightarrow> consistent sha (broadcast d uuid m)"
  by (simp add: consistent_def broadcast_def sends_to_everyone)

lemma consistent_on_initial: "consistent sha d \<Longrightarrow> consistent sha (on_initial sha d s m)"
  by (simp add: on_initial_def consistent_echoMessage)

lemma consistent_on_echo: "consistent sha d \<Longrightarrow> consistent sha (on_echo sha d s m)"
  by (simp add: on_echo_def Let_def split_beta consistent_echoMessage consistent_readyMessage
        consistent_registerEchoMessage consistent_isMessageReady)

lemma consistent_on_ready: "consistent sha d \<Longrightarrow> consistent sha (on_ready sha d s m)"
  by (simp add: on_ready_def Let_def split_beta consistent_echoMessage consistent_readyMessage
        consistent_registerReadyMessage consistent_isMessageReady consistent_isMessageAccepted
        consistent_acceptMessage)

lemma consistent_invoke: "consistent sha d \<Longrightarrow> consistent sha (invoke sha d c)"
  by (cases c)
     (simp_all add: consistent_on_initial consistent_on_echo consistent_on_ready consistent_broadcast)

lemma invoke_all_snoc: "invoke_all sha d (calls @ [c]) = invoke sha (invoke_all sha d calls) c"
  by (simp add: invoke_all_def)

lemma consistent_invoke_all: "consistent sha d \<Longrightarrow> consistent sha (invoke_all sha d calls)"
  by (induction calls rule: rev_induct) (simp_all add: invoke_all_def consistent_invoke)

lemma nodeIDs_invoke [simp]: "nodeIDs (invoke sha d c) = nodeIDs d"
  by (cases c) (simp_all add: on_initial_def on_echo_def on_ready_def broadcast_def Let_def split_beta)

lemma nodeIDs_invoke_all [simp]: "nodeIDs (invoke_all sha d calls) = nodeIDs d"
  by (induction calls rule: rev_induct) (simp_all add: invoke_all_snoc, simp add: invoke_all_def)

lemmas op_state_at = echoMessage_state_at readyMessage_state_at acceptMessage_state_at
  registerEchoMessage_state_at registerReadyMessage_state_at

lemma invoke_wasAccepted:
  "wasAccepted (state_at d h) \<Longrightarrow> wasAccepted (state_at (invoke sha d c) h)"
  by (cases c)
     (auto simp: on_initial_def on_echo_def on_ready_def broadcast_def Let_def split_beta op_state_at)

lemma invoke_echoSenders:
  "echoSenders (state_at (invoke sha d c) h) = Some es' \<Longrightarrow>
     \<exists>es. echoSenders (state_at d h) = Some es \<and> set es \<subseteq> set es'"
  by (cases c)
     (auto simp: on_initial_def on_echo_def on_ready_def broadcast_def Let_def split_beta op_state_at
        set_add_set split: if_splits)

lemma invoke_readySenders:
  "readySenders (state_at (invoke sha d c) h) = Some es' \<Longrightarrow>
     \<exists>es. readySenders (state_at d h) = Some es \<and> set es \<subseteq> set es'"
  by (cases c)
     (auto simp: on_initial_def on_echo_def on_ready_def broadcast_def Let_def split_beta op_state_at
        set_add_set split: if_splits)

lemma invoke_all_wasAccepted:
  "wasAccepted (state_at d h) \<Longrightarrow> wasAccepted (state_at (invoke_all sha d calls) h)"
  by (induction calls rule: rev_induct) (simp_all add: invoke_all_snoc invoke_wasAccepted, simp add: invoke_all_def)

lemma invoke_all_echoSenders:
  "echoSenders (state_at (invoke_all sha d calls) h) = Some es' \<Longrightarrow>
     \<exists>es. echoSenders (state_at d h) = Some es \<and> set es \<subseteq> set es'"
proof (induction calls arbitrary: es' rule: rev_induct)
  case Nil
  then show ?case by (simp add: invoke_all_def)
next
  case (snoc c calls)
  from snoc.prems obtain es1 where
    "echoSenders (state_at (invoke_all sha d calls) h) = Some es1" "set es1 \<subseteq> set es'"
    unfolding invoke_all_snoc using invoke_echoSenders by blast
  with snoc.IH[of es1] show ?case by blast
qed

lemma invoke_all_readySenders:
  "readySenders (state_at (invoke_all sha d calls) h) = Some es' \<Longrightarrow>
     \<exists>es. readySenders (state_at d h) = Some es \<and> set es \<subseteq> set es'"
proof (induction calls arbitrary: es' rule: rev_induct)
  case Nil
  then show ?case by (simp add: invoke_all_def)
next
  case (snoc c calls)
  from snoc.prems obtain es1 where
    "readySenders (state_at (invoke_all sha d calls) h) = Some es1" "set es1 \<subseteq> set es'"
    unfolding invoke_all_snoc using invoke_readySenders by blast
  with snoc.IH[of es1] show ?case by blast
qed

lemma on_echo_effects:
  "effects (on_echo sha d s m) =
     effects d @
     (if isAnnotatedMessage m \<and> snd (isMessageReady sha (registerEchoMessage sha d s m) m)
      then (if wasEchoSent (state_at d (hashMessage sha m)) then []
            else map (\<lambda>nodeId. SendMessage nodeId ''echo'' m) (nodeIDs d))
         @ (if wasReadySent (state_at d (hashMessage sha m)) then []
            else map (\<lambda>nodeId. SendMessage nodeId ''ready'' m) (nodeIDs d))
      else [])"
  by (simp add: on_echo_def Let_def split_beta echoMessage_effects readyMessage_effects op_state_at)

lemma isMessageAccepted_after_sends:
  "snd (isMessageAccepted sha (readyMessage sha (echoMessage sha (fst (isMessageReady sha d m)) m) m) m)
     = snd (isMessageAccepted sha d m)"
  "snd (isMessageAccepted sha (fst (isMessageReady sha d m)) m) = snd (isMessageAccepted sha d m)"
  by (simp_all add: isMessageAccepted_snd op_state_at)

lemma count_list_distinct: "distinct xs \<Longrightarrow> x \<in> set xs \<Longrightarrow> count_list xs x = 1"
  by (induction xs) auto

lemma on_ready_effects:
  "effects (on_ready sha d s m) =
     effects d @
     (if isAnnotatedMessage m then
        (if snd (isMessageReady sha (registerReadyMessage sha d s m) m)
         then (if wasEchoSent (state_at d (hashMessage sha m)) then []
               else map (\<lambda>nodeId. SendMessage nodeId ''echo'' m) (nodeIDs d))
            @ (if wasReadySent (state_at d (hashMessage sha m)) then []
               else map (\<lambda>nodeId. SendMessage nodeId ''ready'' m) (nodeIDs d))
         else [])
        @ (if snd (isMessageAccepted sha (registerReadyMessage sha d s m) m)
              \<and> \<not> wasAccepted (state_at d (hashMessage sha m))
           then [Deliver m (getContentOfMessage m)] else [])
      else [])"
  by (simp add: on_ready_def Let_def split_beta echoMessage_effects readyMessage_effects
        acceptMessage_effects op_state_at isMessageAccepted_after_sends)

lemma consistentD:
  assumes "consistent sha d"
  shows "wasReadySent (state_at d h) \<longrightarrow> echoSenders (state_at d h) = None"
    and "wasAccepted (state_at d h) \<longrightarrow> readySenders (state_at d h) = None"
    and "deliveries sha h (effects d) = (if wasAccepted (state_at d h) then 1 else 0)"
    and "sends sha ''echo'' h nodeId (effects d)
           = (if wasEchoSent (state_at d h) then count_list (nodeIDs d) nodeId else 0)"
    and "sends sha ''ready'' h nodeId (effects d)
           = (if wasReadySent (state_at d h) then count_list (nodeIDs d) nodeId else 0)"
  using assms unfolding consistent_def by blast+

text \<open>
  Claim C1: with \<open>n\<close> member nodes and \<open>f = \<lfloor>(n - 1) / 3\<rfloor>\<close>, for every fingerprint the
  readiness check holds exactly when the ready-sender set exists with size \<open>\<ge> f + 1\<close> or
  the echo-sender set exists with size \<open>> (n + f) / 2\<close>, and the acceptance check holds
  exactly when the ready-sender set exists with size \<open>\<ge> 2 f + 1\<close>. The receiver for
  \<open>echo\<close> causes an effect only when the readiness check holds after the sender was
  registered, and its effects are echo and ready messages for the message at hand only; the
  receiver for \<open>ready\<close> sends only when the readiness check holds and delivers only when
  the acceptance check holds, both taken after the sender was registered.
\<close>

theorem C1_thresholds_gate_effects:
  "snd (isMessageReady sha d m) =
     ((\<exists>senders. readySenders (state_at d (hashMessage sha m)) = Some senders
          \<and> int (length senders) \<ge> (int (length (nodeIDs d)) - 1) div 3 + 1)
      \<or> (\<exists>senders. echoSenders (state_at d (hashMessage sha m)) = Some senders
          \<and> (of_nat (length senders) :: rat)
               > of_int (int (length (nodeIDs d)) + (int (length (nodeIDs d)) - 1) div 3) / 2))
   \<and> snd (isMessageAccepted sha d m) =
     (\<exists>senders. readySenders (state_at d (hashMessage sha m)) = Some senders
          \<and> int (length senders) \<ge> 2 * ((int (length (nodeIDs d)) - 1) div 3) + 1)
   \<and> (new_effects d (on_echo sha d s m) \<noteq> [] \<longrightarrow>
        snd (isMessageReady sha (registerEchoMessage sha d s m) m))
   \<and> (\<forall>e \<in> set (new_effects d (on_echo sha d s m)).
        \<exists>nodeId. e = SendMessage nodeId ''echo'' m \<or> e = SendMessage nodeId ''ready'' m)
   \<and> ((\<exists>nodeId topic message.
          SendMessage nodeId topic message \<in> set (new_effects d (on_ready sha d s m))) \<longrightarrow>
        snd (isMessageReady sha (registerReadyMessage sha d s m) m))
   \<and> ((\<exists>message content.
          Deliver message content \<in> set (new_effects d (on_ready sha d s m))) \<longrightarrow>
        snd (isMessageAccepted sha (registerReadyMessage sha d s m) m))"
proof -
  have a: "new_effects d (on_echo sha d s m) \<noteq> [] \<longrightarrow>
        snd (isMessageReady sha (registerEchoMessage sha d s m) m)"
    by (simp add: new_effects_def on_echo_effects split: if_splits)
  have b: "\<forall>e \<in> set (new_effects d (on_echo sha d s m)).
        \<exists>nodeId. e = SendMessage nodeId ''echo'' m \<or> e = SendMessage nodeId ''ready'' m"
    by (auto simp: new_effects_def on_echo_effects split: if_splits)
  have c: "(\<exists>nodeId topic message.
          SendMessage nodeId topic message \<in> set (new_effects d (on_ready sha d s m))) \<longrightarrow>
        snd (isMessageReady sha (registerReadyMessage sha d s m) m)"
    by (auto simp: new_effects_def on_ready_effects split: if_splits)
  have e: "(\<exists>message content.
          Deliver message content \<in> set (new_effects d (on_ready sha d s m))) \<longrightarrow>
        snd (isMessageAccepted sha (registerReadyMessage sha d s m) m)"
    by (auto simp: new_effects_def on_ready_effects split: if_splits)
  show ?thesis
    using a b c e isMessageReady_snd[of sha d m] isMessageAccepted_snd[of sha d m] by blast
qed

text \<open>
  Claim C2: after every sequence of \<open>initial\<close>, \<open>echo\<close> and \<open>ready\<close> receiver
  invocations (and \<open>broadcast\<close> calls) at a node, for every fingerprint: if
  \<open>wasReadySent\<close> then \<open>echoSenders\<close> is \<open>null\<close>; if \<open>wasAccepted\<close> then
  \<open>readySenders\<close> is \<open>null\<close> and \<open>deliver\<close> has been invoked exactly once for the
  fingerprint, and not at all before; \<open>wasAccepted\<close> stays true under any further
  invocations; and a sender in a sender set is still in it after any further invocations
  that leave the set non-null.
\<close>

theorem C2_state_invariants:
  "(let d = invoke_all sha (newReliableMessageDistributor ids) calls;
        d' = invoke_all sha d later
    in (wasReadySent (state_at d h) \<longrightarrow> echoSenders (state_at d h) = None)
     \<and> (wasAccepted (state_at d h) \<longrightarrow>
          readySenders (state_at d h) = None \<and> deliveries sha h (effects d) = 1)
     \<and> (\<not> wasAccepted (state_at d h) \<longrightarrow> deliveries sha h (effects d) = 0)
     \<and> (wasAccepted (state_at d h) \<longrightarrow> wasAccepted (state_at d' h))
     \<and> (echoSenders (state_at d h) = Some es \<and> x \<in> set es
            \<and> echoSenders (state_at d' h) = Some es' \<longrightarrow> x \<in> set es')
     \<and> (readySenders (state_at d h) = Some rs \<and> y \<in> set rs
            \<and> readySenders (state_at d' h) = Some rs' \<longrightarrow> y \<in> set rs'))"
proof -
  let ?d = "invoke_all sha (newReliableMessageDistributor ids) calls"
  have c: "consistent sha ?d" by (simp add: consistent_new consistent_invoke_all)
  have 1: "wasReadySent (state_at ?d h) \<longrightarrow> echoSenders (state_at ?d h) = None"
    using c by (rule consistentD)
  have 2: "wasAccepted (state_at ?d h) \<longrightarrow> readySenders (state_at ?d h) = None"
    using c by (rule consistentD)
  have 3: "deliveries sha h (effects ?d) = (if wasAccepted (state_at ?d h) then 1 else 0)"
    using c by (rule consistentD)
  show ?thesis
    unfolding Let_def
    using 1 2 3 invoke_all_wasAccepted[of ?d h sha later]
      invoke_all_echoSenders[of sha ?d later h es'] invoke_all_readySenders[of sha ?d later h rs']
    by auto
qed

text \<open>
  Claim C3: the member ids are the keys of an object, hence distinct. After every sequence
  of invocations, for every fingerprint and every member of the network, the number of echo
  messages with that fingerprint sent to the member is one if \<open>wasEchoSent\<close> and zero
  otherwise, and likewise for ready messages and \<open>wasReadySent\<close>; with the flag set,
  \<open>echoMessage\<close> (\<open>readyMessage\<close>) changes nothing and sends nothing.
\<close>

theorem C3_one_emission_per_member:
  assumes "distinct ids"
  shows "(let d = invoke_all sha (newReliableMessageDistributor ids) calls
          in (\<forall>nodeId \<in> set ids.
                sends sha ''echo'' h nodeId (effects d) = (if wasEchoSent (state_at d h) then 1 else 0)
              \<and> sends sha ''ready'' h nodeId (effects d) = (if wasReadySent (state_at d h) then 1 else 0))
           \<and> (wasEchoSent (state_at d (hashMessage sha m)) \<longrightarrow> echoMessage sha d m = d)
           \<and> (wasReadySent (state_at d (hashMessage sha m)) \<longrightarrow> readyMessage sha d m = d))"
proof -
  let ?d = "invoke_all sha (newReliableMessageDistributor ids) calls"
  have c: "consistent sha ?d" by (simp add: consistent_new consistent_invoke_all)
  have ids: "nodeIDs ?d = ids" by (simp add: newReliableMessageDistributor_def)
  have one: "\<And>n. n \<in> set ids \<Longrightarrow> count_list ids n = 1"
    using assms by (simp add: count_list_distinct)
  have 1: "\<forall>nodeId \<in> set ids.
                sends sha ''echo'' h nodeId (effects ?d) = (if wasEchoSent (state_at ?d h) then 1 else 0)
              \<and> sends sha ''ready'' h nodeId (effects ?d) = (if wasReadySent (state_at ?d h) then 1 else 0)"
    using consistentD(4,5)[OF c, of h] ids one by simp
  have 2: "wasEchoSent (state_at ?d (hashMessage sha m)) \<longrightarrow> echoMessage sha ?d m = ?d"
    by (auto simp: echoMessage_def getMessageState_def state_at_def newMessageState_def Let_def
          split: option.splits)
  have 3: "wasReadySent (state_at ?d (hashMessage sha m)) \<longrightarrow> readyMessage sha ?d m = ?d"
    by (auto simp: readyMessage_def getMessageState_def state_at_def newMessageState_def Let_def
          split: option.splits)
  show ?thesis unfolding Let_def using 1 2 3 by blast
qed

theorem C1_thresholds_gate_effects_witness:
  "new_effects after_two_echoes (on_echo sha_stub after_two_echoes ''c'' hello) \<noteq> []
   \<and> snd (isMessageReady sha_stub (registerEchoMessage sha_stub after_two_echoes ''c'' hello) hello)
   \<and> SendMessage ''d'' ''ready'' hello
        \<in> set (new_effects after_one_ready (on_ready sha_stub after_one_ready ''b'' hello))
   \<and> snd (isMessageReady sha_stub (registerReadyMessage sha_stub after_one_ready ''b'' hello) hello)
   \<and> Deliver hello (Str ''hello'')
        \<in> set (new_effects after_two_readies (on_ready sha_stub after_two_readies ''c'' hello))
   \<and> snd (isMessageAccepted sha_stub (registerReadyMessage sha_stub after_two_readies ''c'' hello) hello)"
proof -
  have w1: "new_effects after_two_echoes (on_echo sha_stub after_two_echoes ''c'' hello) \<noteq> []"
    by code_simp
  have w2: "SendMessage ''d'' ''ready'' hello
        \<in> set (new_effects after_one_ready (on_ready sha_stub after_one_ready ''b'' hello))"
    by code_simp
  have w3: "Deliver hello (Str ''hello'')
        \<in> set (new_effects after_two_readies (on_ready sha_stub after_two_readies ''c'' hello))"
    by code_simp
  have x2: "\<exists>nodeId topic message. SendMessage nodeId topic message
        \<in> set (new_effects after_one_ready (on_ready sha_stub after_one_ready ''b'' hello))"
    using w2 by blast
  have x3: "\<exists>message content. Deliver message content
        \<in> set (new_effects after_two_readies (on_ready sha_stub after_two_readies ''c'' hello))"
    using w3 by blast
  have r1: "snd (isMessageReady sha_stub (registerEchoMessage sha_stub after_two_echoes ''c'' hello) hello)"
    using C1_thresholds_gate_effects[of sha_stub after_two_echoes hello "''c''",
        THEN conjunct2, THEN conjunct2, THEN conjunct1] w1
    by (rule mp)
  have r2: "snd (isMessageReady sha_stub (registerReadyMessage sha_stub after_one_ready ''b'' hello) hello)"
    using C1_thresholds_gate_effects[of sha_stub after_one_ready hello "''b''",
        THEN conjunct2, THEN conjunct2, THEN conjunct2, THEN conjunct2, THEN conjunct1] x2
    by (rule mp)
  have r3: "snd (isMessageAccepted sha_stub (registerReadyMessage sha_stub after_two_readies ''c'' hello) hello)"
    using C1_thresholds_gate_effects[of sha_stub after_two_readies hello "''c''",
        THEN conjunct2, THEN conjunct2, THEN conjunct2, THEN conjunct2, THEN conjunct2] x3
    by (rule mp)
  show ?thesis
    by (intro conjI) (fact w1 r1 w2 r2 w3 r3)+
qed

theorem C2_state_invariants_witness:
  "wasReadySent (state_at after_quorum (hashMessage sha_stub hello))
   \<and> echoSenders (state_at after_quorum (hashMessage sha_stub hello)) = None
   \<and> wasAccepted (state_at after_quorum (hashMessage sha_stub hello))
   \<and> readySenders (state_at after_quorum (hashMessage sha_stub hello)) = None
   \<and> deliveries sha_stub (hashMessage sha_stub hello) (effects after_quorum) = 1
   \<and> wasAccepted (state_at (invoke_all sha_stub after_quorum [Ready ''d'' hello])
                       (hashMessage sha_stub hello))
   \<and> deliveries sha_stub (hashMessage sha_stub hello)
         (effects (invoke_all sha_stub (newReliableMessageDistributor four_nodes) first_contact)) = 0
   \<and> echoSenders (state_at (invoke_all sha_stub (newReliableMessageDistributor four_nodes) first_contact)
                       (hashMessage sha_stub hello)) = Some [''a'']
   \<and> echoSenders (state_at (invoke_all sha_stub
                                 (invoke_all sha_stub (newReliableMessageDistributor four_nodes) first_contact)
                                 [Echo ''b'' hello])
                       (hashMessage sha_stub hello)) = Some [''a'', ''b'']"
proof -
  let ?h = "hashMessage sha_stub hello"
  let ?e = "invoke_all sha_stub (newReliableMessageDistributor four_nodes) first_contact"
  have a: "wasReadySent (state_at after_quorum ?h)" by code_simp
  have b: "wasAccepted (state_at after_quorum ?h)" by code_simp
  have c: "\<not> wasAccepted (state_at ?e ?h)" by code_simp
  have d: "echoSenders (state_at ?e ?h) = Some [''a'']" by code_simp
  have e: "echoSenders (state_at (invoke_all sha_stub ?e [Echo ''b'' hello]) ?h) = Some [''a'', ''b'']"
    by code_simp
  note t1 = C2_state_invariants[of sha_stub four_nodes quorum_run "[Ready ''d'' hello]" ?h,
      unfolded Let_def, folded after_quorum_def]
  note t2 = C2_state_invariants[of sha_stub four_nodes first_contact "[Echo ''b'' hello]" ?h
        "[''a'']" "''a''" "[''a'', ''b'']", unfolded Let_def]
  have r1: "echoSenders (state_at after_quorum ?h) = None"
    using t1[THEN conjunct1] a by (rule mp)
  have r2: "readySenders (state_at after_quorum ?h) = None
            \<and> deliveries sha_stub ?h (effects after_quorum) = 1"
    using t1[THEN conjunct2, THEN conjunct1] b by (rule mp)
  have r3: "wasAccepted (state_at (invoke_all sha_stub after_quorum [Ready ''d'' hello]) ?h)"
    using t1[THEN conjunct2, THEN conjunct2, THEN conjunct2, THEN conjunct1] b by (rule mp)
  have r4: "deliveries sha_stub ?h (effects ?e) = 0"
    using t2[THEN conjunct2, THEN conjunct2, THEN conjunct1] c by (rule mp)
  have m: "''a'' \<in> set [''a'']" by simp
  have r5: "''a'' \<in> set [''a'', ''b'']"
    using t2[THEN conjunct2, THEN conjunct2, THEN conjunct2, THEN conjunct2, THEN conjunct1]
      conjI[OF d conjI[OF m e]]
    by (rule mp)
  show ?thesis
    by (intro conjI) (fact a b r1 r2[THEN conjunct1] r2[THEN conjunct2] r3 r4 d e)+
qed

theorem C3_one_emission_per_member_witness:
  "distinct four_nodes
   \<and> wasEchoSent (state_at after_quorum (hashMessage sha_stub hello))
   \<and> wasReadySent (state_at after_quorum (hashMessage sha_stub hello))
   \<and> sends sha_stub ''echo'' (hashMessage sha_stub hello) ''c'' (effects after_quorum) = 1
   \<and> sends sha_stub ''ready'' (hashMessage sha_stub hello) ''a'' (effects after_quorum) = 1
   \<and> echoMessage sha_stub after_quorum hello = after_quorum
   \<and> readyMessage sha_stub after_quorum hello = after_quorum"
proof -
  let ?h = "hashMessage sha_stub hello"
  have a: "distinct four_nodes" by code_simp
  have b: "wasEchoSent (state_at after_quorum ?h)" by code_simp
  have c: "wasReadySent (state_at after_quorum ?h)" by code_simp
  have d: "''c'' \<in> set four_nodes" "''a'' \<in> set four_nodes" by code_simp+
  note t = C3_one_emission_per_member[OF a, of sha_stub quorum_run ?h hello,
      unfolded Let_def, folded after_quorum_def]
  have r1: "sends sha_stub ''echo'' ?h ''c'' (effects after_quorum) = 1"
    using t[THEN conjunct1, rule_format, OF d(1), THEN conjunct1] b by simp
  have r2: "sends sha_stub ''ready'' ?h ''a'' (effects after_quorum) = 1"
    using t[THEN conjunct1, rule_format, OF d(2), THEN conjunct2] c by simp
  have r3: "echoMessage sha_stub after_quorum hello = after_quorum"
    using t[THEN conjunct2, THEN conjunct1] b by (rule mp)
  have r4: "readyMessage sha_stub after_quorum hello = after_quorum"
    using t[THEN conjunct2, THEN conjunct2] c by (rule mp)
  show ?thesis
    by (intro conjI) (fact a b c r1 r2 r3 r4)+
qed

section \<open>Properties of EncryptedTCPNetwork's buffering\<close>

lemma valid_truthy: "keyLength k = 32 \<Longrightarrow> truthy k"
  by (cases k) (auto simp: byteLength_def)

lemma sendMessage_fields:
  assumes "sendMessage s t topic m = Inr s'"
  shows "ownId s' = ownId s" "sockets s' = sockets s" "connections s' = connections s"
    "connectionKeys s' = connectionKeys s"
  using assms
  by (auto simp: sendMessage_def send_aes_def split: option.splits if_splits)

lemma sendMessage_queue_prefix:
  "sendMessage s t topic m = Inr s' \<Longrightarrow> prefix (queue s i) (queue s' i)"
  by (auto simp: sendMessage_def send_aes_def queue_def split: option.splits if_splits)

lemma sendMessage_written_prefix:
  "sendMessage s t topic m = Inr s' \<Longrightarrow> prefix (written s) (written s')"
  by (auto simp: sendMessage_def send_aes_def split: option.splits if_splits)

lemma sendMessage_keyed:
  assumes "t \<noteq> ownId s" "connections s t = Some c" "connectionKeys s t = Some k"
    "keyLength k = 32"
  shows "sendMessage s t topic m = Inr (s\<lparr>written := written s @ [WriteAES c k topic m]\<rparr>)"
  using assms valid_truthy[of k] by (simp add: sendMessage_def send_aes_def)


lemma connect_fields [simp]:
  "ownId (connect s i pk n) = ownId s"
  "bufferedData (connect s i pk n) = bufferedData s"
  "connections (connect s i pk n) = (connections s)(i \<mapsto> length (sockets s))"
  "sockets (connect s i pk n) = sockets s @ [\<lparr>peer = i, peerKey = pk, nonce = n, hasKey = False\<rparr>]"
  by (simp_all add: connect_def Let_def split: option.splits)

lemma connect_queue [simp]: "queue (connect s i pk n) j = queue s j"
  by (simp add: queue_def)

lemma connect_written_prefix: "prefix (written s) (written (connect s i pk n))"
  by (simp add: connect_def Let_def split: option.splits)

lemma kept_refl: "kept s s"
  by (simp add: kept_def)

lemma kept_trans: "kept s s1 \<Longrightarrow> kept s1 s2 \<Longrightarrow> kept s s2"
  unfolding kept_def by (metis prefix_order.trans)

lemma kept_sendMessage: "sendMessage s t topic m = Inr s' \<Longrightarrow> kept s s'"
  by (simp add: kept_def sendMessage_queue_prefix sendMessage_written_prefix sendMessage_fields)

lemma drain_kept:
  assumes "drain s i position = Some r"
  shows "kept s (fst r)"
proof (rule drain.raw_induct[where P = "\<lambda>s i position r. kept s (fst r)", OF _ assms])
  fix drain' :: "('a, 'b) EncryptedTCPNetwork \<Rightarrow> string \<Rightarrow> nat
                   \<Rightarrow> (('a, 'b) EncryptedTCPNetwork \<times> send_error option) option"
  fix s i position r
  assume IH: "\<And>s i position r. drain' s i position = Some r \<Longrightarrow> kept s (fst r)"
    and eq: "(if position < length (queue s i)
              then (case sendMessage s i (fst (queue s i ! position)) (snd (queue s i ! position)) of
                      Inl e \<Rightarrow> Some (s, Some e)
                    | Inr s' \<Rightarrow> drain' s' i (Suc position))
              else Some (s, None)) = Some r"
  show "kept s (fst r)"
  proof (cases "position < length (queue s i)")
    case True
    show ?thesis
    proof (cases "sendMessage s i (fst (queue s i ! position)) (snd (queue s i ! position))")
      case (Inl e)
      with eq True show ?thesis by (auto simp: kept_refl)
    next
      case (Inr s1)
      with eq True have "drain' s1 i (Suc position) = Some r" by simp
      then have "kept s1 (fst r)" by (rule IH)
      with kept_sendMessage[OF Inr] show ?thesis by (rule kept_trans)
    qed
  next
    case False
    with eq show ?thesis by (auto simp: kept_refl)
  qed
qed

lemma drain_keyed:
  assumes "i \<noteq> ownId s" "connections s i = Some c" "connectionKeys s i = Some k"
    "keyLength k = 32"
  shows "drain s i position =
           Some (s\<lparr>written := written s
                     @ map (\<lambda>e. WriteAES c k (fst e) (snd e)) (drop position (queue s i))\<rparr>, None)"
  using assms
proof (induction "length (queue s i) - position" arbitrary: s position)
  case 0
  then have "\<not> position < length (queue s i)" by simp
  then show ?case by (subst drain.simps) simp
next
  case (Suc n)
  then have lt: "position < length (queue s i)" by simp
  let ?e = "queue s i ! position"
  let ?s1 = "s\<lparr>written := written s @ [WriteAES c k (fst ?e) (snd ?e)]\<rparr>"
  have s1: "sendMessage s i (fst ?e) (snd ?e) = Inr ?s1"
    using Suc.prems by (rule sendMessage_keyed)
  have q: "queue ?s1 i = queue s i" by (simp add: queue_def)
  have "drain ?s1 i (Suc position) =
          Some (?s1\<lparr>written := written ?s1
                     @ map (\<lambda>e. WriteAES c k (fst e) (snd e)) (drop (Suc position) (queue ?s1 i))\<rparr>, None)"
    using Suc.hyps(2) Suc.prems lt by (intro Suc.hyps(1)) (simp_all add: q)
  moreover have "drop position (queue s i) = ?e # drop (Suc position) (queue s i)"
    using lt by (simp add: Cons_nth_drop_Suc)
  ultimately show ?case
    using lt by (subst drain.simps) (simp add: s1 q)
qed


lemma extends_refl: "extends s s"
  by (simp add: extends_def)

lemma extends_trans: "extends s s1 \<Longrightarrow> extends s1 s2 \<Longrightarrow> extends s s2"
  unfolding extends_def by (metis prefix_order.trans)

lemma kept_extends: "kept s s' \<Longrightarrow> extends s s'"
  by (simp add: kept_def extends_def)

lemma extends_connect: "extends s (connect s i pk n)"
  by (simp add: extends_def connect_written_prefix)

lemma handshake_drains:
  assumes w: "wired s" and a: "accepted_reply s c returnedNonce k"
  shows "\<exists>target. connections s (peer (sockets s ! c)) = Some target
           \<and> net_step s (HandshakeReply c returnedNonce k freshNonce) =
               Some (s\<lparr>connectionKeys := (connectionKeys s)(peer (sockets s ! c) \<mapsto> k),
                       sockets := (sockets s)[c := (sockets s ! c)\<lparr>hasKey := True\<rparr>],
                       written := written s
                         @ map (\<lambda>e. WriteAES target k (fst e) (snd e)) (queue s (peer (sockets s ! c)))\<rparr>)"
proof -
  let ?p = "peer (sockets s ! c)"
  from a have c: "c < length (sockets s)" and nk: "\<not> hasKey (sockets s ! c)"
    and n: "returnedNonce = nonce (sockets s ! c)" and t: "keyLength k = 32"
    by (simp_all add: accepted_reply_def matching_reply_def)
  from w c obtain target where own: "?p \<noteq> ownId s" and tg: "connections s ?p = Some target"
    by (auto simp: wired_def)
  let ?s1 = "s\<lparr>connectionKeys := (connectionKeys s)(?p \<mapsto> k),
                sockets := (sockets s)[c := (sockets s ! c)\<lparr>hasKey := True\<rparr>]\<rparr>"
  have q: "queue ?s1 ?p = queue s ?p" by (simp add: queue_def)
  have d: "drain ?s1 ?p 0 =
             Some (?s1\<lparr>written := written ?s1
                       @ map (\<lambda>e. WriteAES target k (fst e) (snd e)) (drop 0 (queue ?s1 ?p))\<rparr>, None)"
    using own tg t by (intro drain_keyed) simp_all
  have e: "bufferedData ?s1 ?p = None \<Longrightarrow> queue s ?p = []" by (simp add: queue_def)
  have "handshakeReply s c returnedNonce k freshNonce =
          Some (?s1\<lparr>written := written s
                       @ map (\<lambda>e. WriteAES target k (fst e) (snd e)) (queue s ?p)\<rparr>)"
    using c nk n d e unfolding handshakeReply_def Let_def q by (cases "bufferedData ?s1 ?p") simp_all
  with tg show ?thesis by simp
qed


lemma handshake_accept:
  assumes a: "matching_reply s c rn" and h: "handshakeReply s c rn k n = Some s'"
  shows "\<exists>s2. kept (s\<lparr>connectionKeys := (connectionKeys s)(peer (sockets s ! c) \<mapsto> k),
                      sockets := (sockets s)[c := (sockets s ! c)\<lparr>hasKey := True\<rparr>]\<rparr>) s2
            \<and> ownId s' = ownId s2 \<and> sockets s' = sockets s2 \<and> connections s' = connections s2
            \<and> (\<forall>j. queue s' j = queue s2 j) \<and> prefix (written s2) (written s')"
proof -
  let ?p = "peer (sockets s ! c)"
  let ?s1 = "s\<lparr>connectionKeys := (connectionKeys s)(?p \<mapsto> k),
                sockets := (sockets s)[c := (sockets s ! c)\<lparr>hasKey := True\<rparr>]\<rparr>"
  from a have c: "c < length (sockets s)" and nk: "\<not> hasKey (sockets s ! c)"
    and n: "rn = nonce (sockets s ! c)"
    by (simp_all add: matching_reply_def)
  show ?thesis
  proof (cases "bufferedData ?s1 ?p = None")
    case True
    with h c nk n have "s' = ?s1" by (simp add: handshakeReply_def Let_def)
    then show ?thesis using kept_refl[of ?s1] by (intro exI[of _ ?s1]) simp
  next
    case False
    with h c nk n obtain s2 e where d: "drain ?s1 ?p 0 = Some (s2, e)"
      and s': "s' = (case e of None \<Rightarrow> s2 | Some x \<Rightarrow> s2\<lparr>written := written s2 @ [ConsoleError x]\<rparr>)"
      by (auto simp: handshakeReply_def Let_def split: option.splits)
    from drain_kept[OF d] have "kept ?s1 s2" by simp
    with s' show ?thesis
      by (intro exI[of _ s2]) (auto simp: queue_def split: option.splits)
  qed
qed

lemma net_step_extends: "net_step s e = Some s' \<Longrightarrow> extends s s'"
proof (cases e)
  case (RegisterNode i pk n)
  assume "net_step s e = Some s'"
  with RegisterNode have s': "s' = registerNode s i pk n" by simp
  have "extends s (s\<lparr>publicKeys := (publicKeys s)(i \<mapsto> pk)\<rparr>)"
    by (simp add: extends_def queue_def)
  then have "extends s (connect (s\<lparr>publicKeys := (publicKeys s)(i \<mapsto> pk)\<rparr>) i pk n)"
    using extends_connect by (rule extends_trans)
  with s' show ?thesis by (simp add: registerNode_def extends_refl)
next
  case (SocketLost c n)
  assume "net_step s e = Some s'"
  with SocketLost show ?thesis by (auto simp: extends_refl extends_connect)
next
  case (HandshakeReply c rn k n)
  assume "net_step s e = Some s'"
  with HandshakeReply have h: "handshakeReply s c rn k n = Some s'" by simp
  show ?thesis
  proof (cases "matching_reply s c rn")
    case True
    let ?p = "peer (sockets s ! c)"
    let ?s1 = "s\<lparr>connectionKeys := (connectionKeys s)(?p \<mapsto> k),
                  sockets := (sockets s)[c := (sockets s ! c)\<lparr>hasKey := True\<rparr>]\<rparr>"
    have e1: "extends s ?s1" by (simp add: extends_def queue_def)
    from handshake_accept[OF True h] obtain s2 where
      "kept ?s1 s2" "\<forall>j. queue s' j = queue s2 j" "prefix (written s2) (written s')"
      by blast
    then have "extends ?s1 s'"
      unfolding kept_def extends_def by (metis prefix_order.trans)
    with e1 show ?thesis by (rule extends_trans)
  next
    case False
    with h show ?thesis
      by (auto simp: handshakeReply_def matching_reply_def Let_def extends_refl extends_connect
               split: if_splits)
  qed
next
  case (SendTo t topic m)
  assume "net_step s e = Some s'"
  with SendTo show ?thesis
    using kept_extends[OF kept_sendMessage] by (auto simp: extends_refl split: sum.splits)
next
  case (RegisterReceiver topic)
  assume "net_step s e = Some s'"
  with RegisterReceiver show ?thesis by (auto simp: extends_def queue_def)
qed

lemma net_run_extends: "net_run s es = Some s' \<Longrightarrow> extends s s'"
proof (induction es arbitrary: s)
  case Nil
  then show ?case by (simp add: extends_refl)
next
  case (Cons e es)
  then show ?case
    by (auto split: option.splits intro: extends_trans net_step_extends)
qed

lemma peer_marked:
  "ca < length xs \<Longrightarrow> peer (xs[c := (xs ! c)\<lparr>hasKey := True\<rparr>] ! ca) = peer (xs ! ca)"
  by (cases "ca = c") simp_all

lemma wired_connect:
  assumes "wired s" "i \<noteq> ownId s"
  shows "wired (connect s i pk n)"
  using assms by (auto simp: wired_def nth_append)

lemma net_step_wired: "wired s \<Longrightarrow> net_step s e = Some s' \<Longrightarrow> wired s'"
proof (cases e)
  case (RegisterNode i pk n)
  assume w: "wired s" and "net_step s e = Some s'"
  with RegisterNode have s': "s' = registerNode s i pk n" by simp
  show ?thesis
  proof (cases "i = ownId s")
    case True
    with s' w show ?thesis by (simp add: registerNode_def)
  next
    case False
    have "wired (s\<lparr>publicKeys := (publicKeys s)(i \<mapsto> pk)\<rparr>)" using w by (simp add: wired_def)
    then have "wired (connect (s\<lparr>publicKeys := (publicKeys s)(i \<mapsto> pk)\<rparr>) i pk n)"
      using False by (intro wired_connect) simp_all
    with s' False show ?thesis by (simp add: registerNode_def)
  qed
next
  case (SocketLost c n)
  assume w: "wired s" and "net_step s e = Some s'"
  with SocketLost have s': "s' = (if c < length (sockets s)
           then connect s (peer (sockets s ! c)) (peerKey (sockets s ! c)) n else s)" by simp
  show ?thesis
  proof (cases "c < length (sockets s)")
    case True
    with w have "peer (sockets s ! c) \<noteq> ownId s" by (simp add: wired_def)
    with w have "wired (connect s (peer (sockets s ! c)) (peerKey (sockets s ! c)) n)"
      by (rule wired_connect)
    with s' True show ?thesis by simp
  next
    case False
    with s' w show ?thesis by simp
  qed
next
  case (HandshakeReply c rn k n)
  assume w: "wired s" and "net_step s e = Some s'"
  with HandshakeReply have h: "handshakeReply s c rn k n = Some s'" by simp
  show ?thesis
  proof (cases "matching_reply s c rn")
    case True
    let ?p = "peer (sockets s ! c)"
    let ?s1 = "s\<lparr>connectionKeys := (connectionKeys s)(?p \<mapsto> k),
                  sockets := (sockets s)[c := (sockets s ! c)\<lparr>hasKey := True\<rparr>]\<rparr>"
    have w1: "wired ?s1" using w by (simp add: wired_def peer_marked)
    from handshake_accept[OF True h] obtain s2 where
      "kept ?s1 s2" "ownId s' = ownId s2" "sockets s' = sockets s2" "connections s' = connections s2"
      by blast
    then have "ownId s' = ownId ?s1" "sockets s' = sockets ?s1" "connections s' = connections ?s1"
      by (simp_all add: kept_def)
    with w1 show ?thesis unfolding wired_def by metis
  next
    case False
    with h have "s' = s \<or> (c < length (sockets s)
        \<and> s' = connect s (peer (sockets s ! c)) (peerKey (sockets s ! c)) n)"
      by (auto simp: handshakeReply_def matching_reply_def Let_def split: if_splits)
    then show ?thesis
    proof
      assume "s' = s" with w show ?thesis by simp
    next
      assume a: "c < length (sockets s)
        \<and> s' = connect s (peer (sockets s ! c)) (peerKey (sockets s ! c)) n"
      with w have "peer (sockets s ! c) \<noteq> ownId s" by (simp add: wired_def)
      with w have "wired (connect s (peer (sockets s ! c)) (peerKey (sockets s ! c)) n)"
        by (rule wired_connect)
      with a show ?thesis by simp
    qed
  qed
next
  case (SendTo t topic m)
  assume w: "wired s" and "net_step s e = Some s'"
  with SendTo have "s' = s \<or> sendMessage s t topic m = Inr s'" by (auto split: sum.splits)
  then show ?thesis
  proof
    assume "s' = s" with w show ?thesis by simp
  next
    assume "sendMessage s t topic m = Inr s'"
    from sendMessage_fields[OF this] w show ?thesis by (simp add: wired_def)
  qed
next
  case (RegisterReceiver topic)
  assume w: "wired s" and "net_step s e = Some s'"
  with RegisterReceiver show ?thesis by (auto simp: wired_def)
qed

lemma net_run_wired: "wired s \<Longrightarrow> net_run s es = Some s' \<Longrightarrow> wired s'"
proof (induction es arbitrary: s)
  case Nil
  then show ?case by simp
next
  case (Cons e es)
  then show ?case by (auto split: option.splits dest: net_step_wired)
qed

lemma wired_new: "wired (newEncryptedTCPNetwork i)"
  by (simp add: wired_def newEncryptedTCPNetwork_def)


lemma transmissions_append [simp]:
  "transmissions t m (ws @ ws') = transmissions t m ws + transmissions t m ws'"
  by (simp add: transmissions_def)

lemma transmissions_prefix: "prefix ws ws' \<Longrightarrow> transmissions t m ws \<le> transmissions t m ws'"
  by (auto simp: prefix_def)

lemma transmissions_drain:
  "(t, m) \<in> set q \<Longrightarrow> 1 \<le> transmissions t m (map (\<lambda>e. WriteAES c k (fst e) (snd e)) q)"
  by (induction q) (auto simp: transmissions_def)

lemma net_run_snoc:
  "net_run s (es @ [e]) = (case net_run s es of None \<Rightarrow> None | Some s' \<Rightarrow> net_step s' e)"
  by (induction es arbitrary: s) (auto split: option.splits)

lemma handshake_written:
  assumes "wired s" "accepted_reply s c returnedNonce k"
    and "net_step s (HandshakeReply c returnedNonce k freshNonce) = Some s'"
  shows "\<exists>target. connections s (peer (sockets s ! c)) = Some target
           \<and> connectionKeys s' (peer (sockets s ! c)) = Some k
           \<and> written s' = written s
                 @ map (\<lambda>e. WriteAES target k (fst e) (snd e)) (queue s (peer (sockets s ! c)))"
proof -
  from handshake_drains[OF assms(1,2), of freshNonce] obtain target where
    t: "connections s (peer (sockets s ! c)) = Some target"
    and r: "net_step s (HandshakeReply c returnedNonce k freshNonce) =
               Some (s\<lparr>connectionKeys := (connectionKeys s)(peer (sockets s ! c) \<mapsto> k),
                       sockets := (sockets s)[c := (sockets s ! c)\<lparr>hasKey := True\<rparr>],
                       written := written s
                         @ map (\<lambda>e. WriteAES target k (fst e) (snd e)) (queue s (peer (sockets s ! c)))\<rparr>)"
    by blast
  from r assms(3) have "s' = s\<lparr>connectionKeys := (connectionKeys s)(peer (sockets s ! c) \<mapsto> k),
                       sockets := (sockets s)[c := (sockets s ! c)\<lparr>hasKey := True\<rparr>],
                       written := written s
                         @ map (\<lambda>e. WriteAES target k (fst e) (snd e)) (queue s (peer (sockets s ! c)))\<rparr>"
    by simp
  then have "connectionKeys s' (peer (sockets s ! c)) = Some k"
    and "written s' = written s
                 @ map (\<lambda>e. WriteAES target k (fst e) (snd e)) (queue s (peer (sockets s ! c)))"
    by simp_all
  with t show ?thesis by blast
qed




text \<open>
  Claim C6: no operation removes an entry from a peer's queue: across every step, and every
  run, the old queue is a prefix of the new one. Consequently, when a handshake for a peer
  succeeds (its reply has the socket's nonce and an AES-256 key), anything happens (socket
  errors, ends, nonce mismatches, reconnects, sends), and a later handshake for the same
  peer succeeds, the later handshake sends the whole queue again, which still starts with
  the entries of the earlier one: an entry buffered before the earlier handshake has been
  transmitted at least twice more than before it.
\<close>

theorem C6_buffer_never_cleared_resend:
  "(net_step s e = Some s' \<longrightarrow> prefix (queue s i) (queue s' i))
   \<and> (net_run s es = Some s'' \<longrightarrow> prefix (queue s i) (queue s'' i))
   \<and> (net_run (newEncryptedTCPNetwork own) evs = Some r
        \<and> accepted_reply r c returnedNonce k
        \<and> net_step r (HandshakeReply c returnedNonce k freshNonce) = Some r1
        \<and> net_run r1 evs' = Some r2
        \<and> accepted_reply r2 c' returnedNonce' k'
        \<and> peer (sockets r2 ! c') = peer (sockets r ! c)
        \<and> net_step r2 (HandshakeReply c' returnedNonce' k' freshNonce') = Some r3
        \<and> (topic, message) \<in> set (queue r (peer (sockets r ! c)))
       \<longrightarrow>
         prefix (queue r (peer (sockets r ! c))) (queue r2 (peer (sockets r ! c)))
       \<and> (\<exists>target'. written r3 = written r2
               @ map (\<lambda>e. WriteAES target' k' (fst e) (snd e)) (queue r2 (peer (sockets r ! c))))
       \<and> transmissions topic message (written r) + 2 \<le> transmissions topic message (written r3))"
proof (intro conjI impI)
  assume "net_step s e = Some s'"
  then have "extends s s'" by (rule net_step_extends)
  then show "prefix (queue s i) (queue s' i)" by (simp add: extends_def)
next
  assume "net_run s es = Some s''"
  then have "extends s s''" by (rule net_run_extends)
  then show "prefix (queue s i) (queue s'' i)" by (simp add: extends_def)
next
  let ?p = "peer (sockets r ! c)"
  assume a: "net_run (newEncryptedTCPNetwork own) evs = Some r
        \<and> accepted_reply r c returnedNonce k
        \<and> net_step r (HandshakeReply c returnedNonce k freshNonce) = Some r1
        \<and> net_run r1 evs' = Some r2
        \<and> accepted_reply r2 c' returnedNonce' k'
        \<and> peer (sockets r2 ! c') = peer (sockets r ! c)
        \<and> net_step r2 (HandshakeReply c' returnedNonce' k' freshNonce') = Some r3
        \<and> (topic, message) \<in> set (queue r (peer (sockets r ! c)))"
  then have wr: "wired r" using net_run_wired[OF wired_new] by blast
  from handshake_written[OF wr, of c returnedNonce k freshNonce r1] a obtain target where
    w1: "written r1 = written r @ map (\<lambda>e. WriteAES target k (fst e) (snd e)) (queue r ?p)"
    by blast
  from a have st1: "net_step r (HandshakeReply c returnedNonce k freshNonce) = Some r1"
    and run2: "net_run r1 evs' = Some r2" by blast+
  have q1: "prefix (queue r ?p) (queue r1 ?p)"
    using net_step_extends[OF st1] by (simp add: extends_def)
  have wr1: "wired r1" using wr st1 by (rule net_step_wired)
  have e12: "extends r1 r2" using run2 by (rule net_run_extends)
  have wr2: "wired r2" using wr1 run2 by (rule net_run_wired)
  from a have p': "peer (sockets r2 ! c') = ?p" by blast
  from handshake_written[OF wr2, of c' returnedNonce' k' freshNonce' r3] a obtain target' where
    "written r3 = written r2
       @ map (\<lambda>e. WriteAES target' k' (fst e) (snd e)) (queue r2 (peer (sockets r2 ! c')))"
    by blast
  then have w3: "written r3 = written r2
       @ map (\<lambda>e. WriteAES target' k' (fst e) (snd e)) (queue r2 ?p)"
    unfolding p' .
  have q2: "prefix (queue r ?p) (queue r2 ?p)"
    using q1 e12 by (auto simp: extends_def intro: prefix_order.trans)
  then have mem: "(topic, message) \<in> set (queue r2 ?p)" using a by (auto simp: prefix_def)
  have t1: "transmissions topic message (written r) + 1 \<le> transmissions topic message (written r1)"
    using w1 a transmissions_drain[of topic message "queue r ?p" target k] by simp
  have t2: "transmissions topic message (written r1) \<le> transmissions topic message (written r2)"
    using e12 by (simp add: extends_def transmissions_prefix)
  have t3: "transmissions topic message (written r2) + 1 \<le> transmissions topic message (written r3)"
    using w3 mem transmissions_drain[of topic message "queue r2 ?p" target' k'] by simp
  show "prefix (queue r ?p) (queue r2 ?p)" by (rule q2)
  show "\<exists>target'. written r3 = written r2
               @ map (\<lambda>e. WriteAES target' k' (fst e) (snd e)) (queue r2 ?p)"
    using w3 by blast
  show "transmissions topic message (written r) + 2 \<le> transmissions topic message (written r3)"
    using t1 t2 t3 by linarith
qed

theorem C6_buffer_never_cleared_resend_witness:
  "prefix (queue net_buffered ''b'') (queue net_reconnected ''b'')
   \<and> transmissions ''t'' ''m1'' (written net_buffered) + 2
        \<le> transmissions ''t'' ''m1'' (written net_drained_again)"
proof -
  let ?new = "newEncryptedTCPNetwork ''a'' :: (unit, string) EncryptedTCPNetwork"
  have "net_run ?new buffering_run \<noteq> None" by code_simp
  then have run: "net_run ?new buffering_run = Some net_buffered" by (simp add: net_buffered_def)
  have acc: "accepted_reply net_buffered 0 ''n1'' key_one" by code_simp
  have "net_step net_buffered (HandshakeReply 0 ''n1'' key_one ''n2'') \<noteq> None"
    by code_simp
  then have st1: "net_step net_buffered (HandshakeReply 0 ''n1'' key_one ''n2'') = Some net_drained"
    by (simp add: net_drained_def)
  have "net_run net_drained [SocketLost 0 ''n3'', SendTo ''b'' ''t'' ''m3''] \<noteq> None" by code_simp
  then have run2: "net_run net_drained [SocketLost 0 ''n3'', SendTo ''b'' ''t'' ''m3''] = Some net_reconnected"
    by (simp add: net_reconnected_def)
  have acc2: "accepted_reply net_reconnected 1 ''n3'' key_two" by code_simp
  have pe: "peer (sockets net_reconnected ! 1) = peer (sockets net_buffered ! 0)" by code_simp
  have "net_step net_reconnected (HandshakeReply 1 ''n3'' key_two ''n4'') \<noteq> None"
    by code_simp
  then have st2: "net_step net_reconnected (HandshakeReply 1 ''n3'' key_two ''n4'') = Some net_drained_again"
    by (simp add: net_drained_again_def)
  have mem: "(''t'', ''m1'') \<in> set (queue net_buffered (peer (sockets net_buffered ! 0)))"
    by code_simp
  have p: "peer (sockets net_buffered ! 0) = ''b''" by code_simp
  note a = C6_buffer_never_cleared_resend[where own="''a''" and evs=buffering_run
      and r=net_buffered and c=0 and returnedNonce="''n1''" and k=key_one
      and freshNonce="''n2''" and ?r1.0=net_drained
      and evs'="[SocketLost 0 ''n3'', SendTo ''b'' ''t'' ''m3'']" and ?r2.0=net_reconnected
      and c'=1 and returnedNonce'="''n3''" and k'=key_two and freshNonce'="''n4''"
      and ?r3.0=net_drained_again and topic="''t''" and message="''m1''",
      THEN conjunct2, THEN conjunct2, THEN mp]
  from a[OF conjI[OF run conjI[OF acc conjI[OF st1 conjI[OF run2 conjI[OF acc2 conjI[OF pe conjI[OF st2 mem]]]]]]]]
  show ?thesis by (simp add: p)
qed

section \<open>Properties of the framing\<close>

lemma unat_digit: "d < 10 \<Longrightarrow> unat (digit d) = 48 + d"
  by (simp only: digit_def unat_of_nat) simp

lemma digit_not_zero: "d < 10 \<Longrightarrow> digit d \<noteq> 0"
  using unat_digit[of d] by auto

lemma decimal_not_Nil: "decimal n \<noteq> []"
  by (subst decimal.simps) simp

lemma decimal_no_zero: "0 \<notin> set (decimal n)"
proof (induction n rule: decimal.induct)
  case (1 n)
  show ?case
  proof (cases "n < 10")
    case True
    then show ?thesis using digit_not_zero[of n] by (subst decimal.simps) auto
  next
    case False
    have "n mod 10 < 10" by simp
    then have "digit (n mod 10) \<noteq> 0" by (rule digit_not_zero)
    with 1 False show ?thesis by (subst decimal.simps) auto
  qed
qed




lemma findIndex_none: "\<forall>x \<in> set xs. \<not> p x \<Longrightarrow> findIndex p xs = - 1"
  by (induction xs) simp_all

lemma findIndex_first:
  "\<forall>x \<in> set xs. \<not> p x \<Longrightarrow> p y \<Longrightarrow> findIndex p (xs @ y # ys) = int (length xs)"
  by (induction xs) (simp_all add: Let_def)

lemma subarray_head: "subarray (xs @ ys) 0 (int (length xs)) = xs"
  by (simp add: subarray_def relativeIndex_def)

lemma subarray_middle:
  "subarray (xs @ z # b @ rest) (int (length xs) + 1) (int (length xs) + 1 + int (length b)) = b"
proof -
  have 1: "relativeIndex (length (xs @ z # b @ rest)) (int (length xs) + 1) = length xs + 1"
    by (simp add: relativeIndex_def)
  have 2: "nat (int (length xs) + 1 + int (length b)) = length xs + 1 + length b" by simp
  have 3: "relativeIndex (length (xs @ z # b @ rest)) (int (length xs) + 1 + int (length b))
             = length xs + 1 + length b"
    unfolding relativeIndex_def 2 by simp
  show ?thesis unfolding subarray_def 1 3 by simp
qed

lemma subarray_from_rest:
  "subarray_from (xs @ z # b @ rest) (int (length xs) + 1 + int (length b)) = rest"
proof -
  have 2: "nat (int (length xs) + 1 + int (length b)) = length xs + 1 + length b" by simp
  have 3: "relativeIndex (length (xs @ z # b @ rest)) (int (length xs) + 1 + int (length b))
             = length xs + 1 + length b"
    unfolding relativeIndex_def 2 by simp
  show ?thesis unfolding subarray_from_def 3 by simp
qed


lemma frame_length: "length (frame b) \<ge> 2"
  using decimal_not_Nil[of "length b"] by (cases "decimal (length b)") (simp_all add: frame_def)

lemma dataLoop_frame:
  assumes num: "\<And>n. toNumber (decimal n) = Some (int n)"
    and ne: "b \<noteq> []" and p: "parse b = Some d"
  shows "dataLoop toNumber parse (frame b @ rest) = Some (AwaitingReceive d rest)"
proof -
  let ?d = "decimal (length b)"
  let ?buffer = "?d @ 0 # b @ rest"
  have buf: "frame b @ rest = ?buffer" by (simp add: frame_def)
  have le: "findIndex (\<lambda>num. num = 0) ?buffer = int (length ?d)"
    using decimal_no_zero[of "length b"] by (intro findIndex_first) auto
  have pos: "0 < int (length ?d)" using decimal_not_Nil[of "length b"] by simp
  have pre: "subarray ?buffer 0 (int (length ?d)) = ?d"
    using subarray_head[of ?d "0 # b @ rest"] by simp
  have fits: "int (length ?d) + 1 + int (length b) \<le> int (length ?buffer)" by simp
  show ?thesis
    unfolding buf
    apply (subst dataLoop.simps)
    apply (simp only: le Let_def pre num option.case subarray_middle subarray_from_rest)
    using pos fits ne p apply simp
    done
qed

lemma dataLoop_partial:
  assumes num: "\<And>n. toNumber (decimal n) = Some (int n)"
    and sp: "strict_prefix buffer (frame b)"
  shows "dataLoop toNumber parse buffer = Some (LoopEnded buffer)"
proof -
  let ?d = "decimal (length b)"
  from sp obtain zs where z: "frame b = buffer @ zs" "zs \<noteq> []"
    by (auto simp: strict_prefix_def prefix_def)
  define k where "k = length buffer"
  have fr: "?d @ 0 # b = buffer @ zs" using z(1) by (simp add: frame_def)
  have k: "buffer = take k (?d @ 0 # b)" "k < length (?d @ 0 # b)"
    unfolding fr k_def using z(2) by simp_all
  show ?thesis
  proof (cases "k \<le> length ?d")
    case True
    then have b: "buffer = take k ?d" using k by simp
    then have nz: "\<forall>x \<in> set buffer. \<not> x = 0"
      using decimal_no_zero[of "length b"] by (auto dest: in_set_takeD)
    then have "findIndex (\<lambda>num. num = 0) buffer = - 1" by (rule findIndex_none)
    then show ?thesis by (subst dataLoop.simps) simp
  next
    case False
    define j where "j = k - (length ?d + 1)"
    from False have j: "k = length ?d + 1 + j" by (simp add: j_def)
    with k have jl: "j < length b" by simp
    from j k have buf: "buffer = ?d @ 0 # take j b" by simp
    have le: "findIndex (\<lambda>num. num = 0) buffer = int (length ?d)"
      unfolding buf using decimal_no_zero[of "length b"] by (intro findIndex_first) auto
    have pos: "0 < int (length ?d)" using decimal_not_Nil[of "length b"] by simp
    have pre: "subarray buffer 0 (int (length ?d)) = ?d"
      unfolding buf using subarray_head[of ?d "0 # take j b"] by simp
    have short: "\<not> int (length ?d) + 1 + int (length b) \<le> int (length buffer)"
      unfolding buf using jl by simp
    have ne: "0 < length buffer" unfolding buf by simp
    show ?thesis
      apply (subst dataLoop.simps)
      apply (simp only: le Let_def pre num option.case)
      using pos short ne apply simp
      done
  qed
qed

lemma frames_Nil_conv:
  "concat (map (TCPNetwork_send stringify) ds) = [] \<Longrightarrow> ds = []"
proof (cases ds)
  case Nil
  then show ?thesis by simp
next
  case (Cons d ds')
  assume "concat (map (TCPNetwork_send stringify) ds) = []"
  with Cons have "frame (stringify d) = []" by (simp add: TCPNetwork_send_def)
  with frame_length[of "stringify d"] show ?thesis by simp
qed

text \<open>
  A run of the handler that is alone: it is resumed whenever its \<open>receive\<close> call has
  settled, and no chunk arrives before it has ended. It calls \<open>receive\<close> for every whole
  frame of its buffer, in order, and leaves the rest in \<open>lastBuffer\<close>.
\<close>

lemma settleAll_run:
  assumes num: "\<And>n. toNumber (decimal n) = Some (int n)"
  shows "\<forall>d \<in> set ds. parse (stringify d) = Some d \<and> stringify d \<noteq> [] \<Longrightarrow>
         prefix buffer (concat (map (TCPNetwork_send stringify) ds)) \<Longrightarrow>
         suspended s = [buffer] \<Longrightarrow>
         \<exists>ds1 ds2 r s'. ds = ds1 @ ds2
           \<and> buffer = concat (map (TCPNetwork_send stringify) ds1) @ r
           \<and> (r = [] \<or> (ds2 \<noteq> [] \<and> strict_prefix r (TCPNetwork_send stringify (hd ds2))))
           \<and> settleAll toNumber parse s = Some s'
           \<and> lastBuffer s' = r \<and> suspended s' = [] \<and> receiveCalls s' = receiveCalls s @ ds1"
proof (induction ds arbitrary: buffer s)
  case Nil
  then have b: "buffer = []" by simp
  have l: "dataLoop toNumber parse [] = Some (LoopEnded [])" by (subst dataLoop.simps) simp
  let ?s1 = "s\<lparr>lastBuffer := [], suspended := []\<rparr>"
  have "settleAll toNumber parse ?s1 = Some ?s1" by (subst settleAll.simps) simp
  then have "settleAll toNumber parse s = Some ?s1"
    using Nil(3) b l by (subst settleAll.simps) simp
  with b show ?case by (intro exI[of _ "[]"] exI[of _ ?s1]) simp
next
  case (Cons d ds)
  let ?f = "TCPNetwork_send stringify d"
  from Cons.prems(2) have "prefix buffer (?f @ concat (map (TCPNetwork_send stringify) ds))"
    by simp
  then consider (part) "strict_prefix buffer ?f"
    | (whole) buffer' where "buffer = ?f @ buffer'"
        "prefix buffer' (concat (map (TCPNetwork_send stringify) ds))"
    unfolding prefix_append strict_prefix_def by (metis append_Nil2 prefix_bot.extremum)
  then show ?case
  proof cases
    case part
    then have l: "dataLoop toNumber parse buffer = Some (LoopEnded buffer)"
      unfolding TCPNetwork_send_def using num by (intro dataLoop_partial)
    let ?s1 = "s\<lparr>lastBuffer := buffer, suspended := []\<rparr>"
    have "settleAll toNumber parse ?s1 = Some ?s1" by (subst settleAll.simps) simp
    then have "settleAll toNumber parse s = Some ?s1"
      using Cons.prems(3) l by (subst settleAll.simps) simp
    with part show ?thesis
      by (intro exI[of _ "[]"] exI[of _ "d # ds"] exI[of _ buffer] exI[of _ ?s1]) simp
  next
    case whole
    from Cons.prems(1) have pd: "parse (stringify d) = Some d" and ne: "stringify d \<noteq> []"
      and codec': "\<forall>d \<in> set ds. parse (stringify d) = Some d \<and> stringify d \<noteq> []"
      by simp_all
    have l: "dataLoop toNumber parse buffer = Some (AwaitingReceive d buffer')"
      unfolding whole(1) TCPNetwork_send_def using num ne pd by (rule dataLoop_frame)
    let ?s1 = "s\<lparr>suspended := [buffer'], receiveCalls := receiveCalls s @ [d]\<rparr>"
    have st: "settleAll toNumber parse s = settleAll toNumber parse ?s1"
      using Cons.prems(3) l by (subst settleAll.simps) simp
    have "suspended ?s1 = [buffer']" by simp
    from Cons.IH[OF codec' whole(2) this] obtain ds1 ds2 r s' where
      s: "ds = ds1 @ ds2" "buffer' = concat (map (TCPNetwork_send stringify) ds1) @ r"
         "r = [] \<or> (ds2 \<noteq> [] \<and> strict_prefix r (TCPNetwork_send stringify (hd ds2)))"
         "settleAll toNumber parse ?s1 = Some s'"
         "lastBuffer s' = r" "suspended s' = []" "receiveCalls s' = receiveCalls ?s1 @ ds1"
      by blast
    with st whole(1) show ?thesis
      by (intro exI[of _ "d # ds1"] exI[of _ ds2] exI[of _ r] exI[of _ s']) simp
  qed
qed

text \<open>A chunk that arrives when no run is suspended starts such a run.\<close>

lemma data_then_settle:
  assumes "suspended s = []"
  shows "(case receiver_step toNumber parse s (DataEvent chunk) of
            None \<Rightarrow> None
          | Some s1 \<Rightarrow> settleAll toNumber parse s1)
         = settleAll toNumber parse (s\<lparr>suspended := [lastBuffer s @ chunk]\<rparr>)"
proof (cases "dataLoop toNumber parse (lastBuffer s @ chunk)")
  case None
  then show ?thesis by (subst (2) settleAll.simps) simp
next
  case (Some result)
  show ?thesis
  proof (cases result)
    case (LoopEnded b)
    have e: "s\<lparr>lastBuffer := b, suspended := []\<rparr> = s\<lparr>lastBuffer := b\<rparr>"
      using assms by (cases s) simp
    have "settleAll toNumber parse (s\<lparr>lastBuffer := b\<rparr>) = Some (s\<lparr>lastBuffer := b\<rparr>)"
      using assms by (subst settleAll.simps) simp
    then show ?thesis
      using Some LoopEnded e by (subst (2) settleAll.simps) simp
  next
    case (AwaitingReceive d b)
    then show ?thesis
      using Some assms by (subst (2) settleAll.simps) simp
  qed
qed

lemma deliverInTurn_frames:
  assumes num: "\<And>n. toNumber (decimal n) = Some (int n)"
  shows "\<forall>d \<in> set ds. parse (stringify d) = Some d \<and> stringify d \<noteq> [] \<Longrightarrow>
         suspended s = [] \<Longrightarrow>
         lastBuffer s = [] \<or> (ds \<noteq> [] \<and> strict_prefix (lastBuffer s) (TCPNetwork_send stringify (hd ds))) \<Longrightarrow>
         lastBuffer s @ concat chunks = concat (map (TCPNetwork_send stringify) ds) \<Longrightarrow>
         \<exists>s'. deliverInTurn toNumber parse s chunks = Some s'
           \<and> receiveCalls s' = receiveCalls s @ ds \<and> lastBuffer s' = [] \<and> suspended s' = []"
proof (induction chunks arbitrary: s ds)
  case Nil
  from Nil(4) have all: "lastBuffer s = concat (map (TCPNetwork_send stringify) ds)" by simp
  have "ds = []"
  proof (rule ccontr)
    assume ne: "ds \<noteq> []"
    then obtain d ds' where dd: "ds = d # ds'" by (cases ds) auto
    with all have "length (TCPNetwork_send stringify d) \<le> length (lastBuffer s)" by simp
    moreover from all dd frame_length[of "stringify d"] have "lastBuffer s \<noteq> []"
      by (auto simp: TCPNetwork_send_def)
    ultimately show False using Nil(3) dd by (auto simp: strict_prefix_def prefix_def)
  qed
  with all Nil(2) show ?case by simp
next
  case (Cons c cs)
  let ?s0 = "s\<lparr>suspended := [lastBuffer s @ c]\<rparr>"
  have "concat (map (TCPNetwork_send stringify) ds) = (lastBuffer s @ c) @ concat cs"
    using Cons.prems(4) by simp
  then have pre: "prefix (lastBuffer s @ c) (concat (map (TCPNetwork_send stringify) ds))"
    by (rule prefixI)
  have "suspended ?s0 = [lastBuffer s @ c]" by simp
  from settleAll_run[OF num Cons.prems(1) pre this] obtain ds1 ds2 r s2 where
    s: "ds = ds1 @ ds2" "lastBuffer s @ c = concat (map (TCPNetwork_send stringify) ds1) @ r"
       "r = [] \<or> (ds2 \<noteq> [] \<and> strict_prefix r (TCPNetwork_send stringify (hd ds2)))"
       "settleAll toNumber parse ?s0 = Some s2"
       "lastBuffer s2 = r" "suspended s2 = []" "receiveCalls s2 = receiveCalls ?s0 @ ds1"
    by blast
  from s(4) data_then_settle[OF Cons.prems(2), of toNumber parse c]
  have "(case receiver_step toNumber parse s (DataEvent c) of
            None \<Rightarrow> None
          | Some s1 \<Rightarrow> settleAll toNumber parse s1) = Some s2"
    by simp
  then obtain s1 where s1: "receiver_step toNumber parse s (DataEvent c) = Some s1"
    "settleAll toNumber parse s1 = Some s2"
    by (auto split: option.splits)
  have rest: "r @ concat cs = concat (map (TCPNetwork_send stringify) ds2)"
  proof -
    have "concat (map (TCPNetwork_send stringify) ds1) @ r @ concat cs
            = concat (map (TCPNetwork_send stringify) ds1) @ concat (map (TCPNetwork_send stringify) ds2)"
      using Cons.prems(4) s(1,2) by (metis append.assoc concat.simps(2) concat_append map_append)
    then show ?thesis by simp
  qed
  have codec2: "\<forall>d \<in> set ds2. parse (stringify d) = Some d \<and> stringify d \<noteq> []"
    using Cons.prems(1) s(1) by simp
  have lb: "lastBuffer s2 = [] \<or> (ds2 \<noteq> [] \<and> strict_prefix (lastBuffer s2) (TCPNetwork_send stringify (hd ds2)))"
    using s(3,5) by simp
  have rest2: "lastBuffer s2 @ concat cs = concat (map (TCPNetwork_send stringify) ds2)"
    using rest s(5) by simp
  from Cons.IH[OF codec2 s(6) lb rest2] obtain s' where
    "deliverInTurn toNumber parse s2 cs = Some s'"
    "receiveCalls s' = receiveCalls s2 @ ds2" "lastBuffer s' = []" "suspended s' = []"
    by blast
  with s1 s(1,7) show ?case by simp
qed

text \<open>
  When every \<open>receive\<close> call has settled before the next chunk arrives, the round trip
  holds: for every sequence of values written by \<open>TCPNetwork.send\<close> (the text of each
  parses back to it and is not empty, as no JSON text is) and every partition of the
  frames into chunks, \<open>receive\<close> is called with the values written, in order, and the
  carry buffer ends empty.
\<close>

lemma framing_round_trip_in_turn:
  assumes "\<forall>n. toNumber (decimal n) = Some (int n)"
    and "\<forall>d \<in> set ds. parse (stringify d) = Some d \<and> stringify d \<noteq> []"
    and "concat chunks = concat (map (TCPNetwork_send stringify) ds)"
  shows "\<exists>s'. deliverInTurn toNumber parse setReceiver chunks = Some s'
           \<and> receiveCalls s' = ds \<and> lastBuffer s' = [] \<and> suspended s' = []"
proof -
  have num: "\<And>n. toNumber (decimal n) = Some (int n)" using assms(1) by simp
  have "\<exists>s'. deliverInTurn toNumber parse setReceiver chunks = Some s'
           \<and> receiveCalls s' = receiveCalls (setReceiver :: 'a receiver_state) @ ds
           \<and> lastBuffer s' = [] \<and> suspended s' = []"
    using assms(2,3) by (intro deliverInTurn_frames[OF num]) (simp_all add: setReceiver_def)
  then show ?thesis by (simp add: setReceiver_def)
qed

text \<open>
  Claim C4: every sequence of bodies framed by the writer, chunked in any way, reaches
  \<open>receive\<close> unchanged and in order. The reader breaks it when a chunk arrives while a
  \<open>receive\<close> call is pending. The handler reads \<open>lastBuffer\<close> when it starts and stores
  it when it ends, and is suspended at \<open>await receive(...)\<close> in between: the run started
  by the second chunk does not see what the first run still holds, and the first run, when
  it ends, overwrites what the second has stored. Two messages are written; the chunks are
  the 22 bytes of their frames; \<open>receive\<close> is called with the first message only, and the
  bytes of the second are lost but for one. Delivered in turn, the same chunks give both
  messages.
\<close>

theorem C4_overlapping_runs_lose_frame:
  "first_chunk @ second_chunk
     = concat (map (TCPNetwork_send pair_stringify) [message_a, message_b])
   \<and> pair_parse (pair_stringify message_a) = Some message_a
   \<and> pair_parse (pair_stringify message_b) = Some message_b
   \<and> receiver_run parseDecimal pair_parse setReceiver overlapping
       = Some \<lparr>lastBuffer = [57], suspended = [], receiveCalls = [message_a]\<rparr>
   \<and> deliverInTurn parseDecimal pair_parse setReceiver [first_chunk, second_chunk]
       = Some \<lparr>lastBuffer = [], suspended = [], receiveCalls = [message_a, message_b]\<rparr>"
proof -
  have a: "first_chunk @ second_chunk
     = concat (map (TCPNetwork_send pair_stringify) [message_a, message_b])"
    by code_simp
  have b: "pair_parse (pair_stringify message_a) = Some message_a" by code_simp
  have c: "pair_parse (pair_stringify message_b) = Some message_b" by code_simp
  have d: "receiver_run parseDecimal pair_parse setReceiver overlapping
       = Some \<lparr>lastBuffer = [57], suspended = [], receiveCalls = [message_a]\<rparr>"
    by code_simp
  have e: "deliverInTurn parseDecimal pair_parse setReceiver [first_chunk, second_chunk]
       = Some \<lparr>lastBuffer = [], suspended = [], receiveCalls = [message_a, message_b]\<rparr>"
    by code_simp
  from a b c d e show ?thesis by (intro conjI)
qed

section \<open>Properties of the RSA chunking\<close>







end
